theory Spec2Isabelle
  imports Main "HOL-Library.Sublist"
begin

section \<open>Strings and character classes of the JavaScript runtime\<close>

text \<open>
  A JavaScript string is a sequence of code units. The model takes the code units below 256
  (\<^typ>\<open>char\<close>), which covers every character the sources name in a pattern or a
  replacement, the guillemets \<open>0xAB\<close> and \<open>0xBB\<close> included.
\<close>

definition lowers :: string where
  "lowers = ''abcdefghijklmnopqrstuvwxyz''"

definition uppers :: string where
  "uppers = ''ABCDEFGHIJKLMNOPQRSTUVWXYZ''"

definition digits :: string where
  "digits = ''0123456789''"

definition word_chars :: string where
  "word_chars = uppers @ lowers @ digits @ ''_''"

text \<open>The class \<open>\s\<close> (and what \<open>trim\<close> removes) among the code units below 256.\<close>

definition spaces :: string where
  "spaces = [CHR 0x09, CHR 0x0A, CHR 0x0B, CHR 0x0C, CHR 0x0D, CHR 0x20, CHR 0xA0]"

definition is_space :: "char \<Rightarrow> bool" where
  "is_space c = (c \<in> set spaces)"

definition is_word :: "char \<Rightarrow> bool" where
  "is_word c = (c \<in> set word_chars)"

text \<open>Line terminators, after which a multiline \<open>^\<close> matches.\<close>

definition is_line_term :: "char \<Rightarrow> bool" where
  "is_line_term c = (c = CHR 0x0A \<or> c = CHR 0x0D)"

text \<open>
  \<open>toLowerCase\<close> on one code unit. Only \<open>A-Z\<close> are converted: the sources compare the
  result with ASCII words or delete every character outside \<open>a-z0-9\<close>, so the case of
  the other code units is never observed.
\<close>

definition to_lower :: "char \<Rightarrow> char" where
  "to_lower c = (case map_of (zip uppers lowers) c of Some l \<Rightarrow> l | None \<Rightarrow> c)"

definition to_upper :: "char \<Rightarrow> char" where
  "to_upper c = (case map_of (zip lowers uppers) c of Some u \<Rightarrow> u | None \<Rightarrow> c)"

definition toLowerCase :: "string \<Rightarrow> string" where
  "toLowerCase s = map to_lower s"

definition trim :: "string \<Rightarrow> string" where
  "trim s = rev (dropWhile is_space (rev (dropWhile is_space s)))"

section \<open>Regular expressions with the backtracking order of the runtime\<close>

datatype cset = OneOf string | NoneOf string | Space

fun cmatch :: "cset \<Rightarrow> char \<Rightarrow> bool" where
  "cmatch (OneOf cs) c = (c \<in> set cs)"
| "cmatch (NoneOf cs) c = (c \<notin> set cs)"
| "cmatch Space c = is_space c"

datatype regex =
    Atom cset
  | Eps
  | Seq regex regex
  | Alt regex regex
  | Star regex
  | LazyStar regex
  | Group nat regex
  | Bol
  | BolM
  | Eol
  | WordB

text \<open>
  A matcher state: the code unit before the current position (\<open>None\<close> at index 0), the
  text from the current position on, and the captures made so far (latest first).
\<close>

type_synonym mstate = "char option \<times> string \<times> (nat \<times> string) list"

definition word_before :: "char option \<Rightarrow> bool" where
  "word_before p = (case p of None \<Rightarrow> False | Some c \<Rightarrow> is_word c)"

definition word_after :: "string \<Rightarrow> bool" where
  "word_after s = (case s of [] \<Rightarrow> False | c # _ \<Rightarrow> is_word c)"

text \<open>
  \<open>ms r st\<close> lists every state in which \<open>r\<close> can end when started in \<open>st\<close>, in the order
  in which the backtracking matcher tries them: the head is the match the runtime takes.
  A greedy star tries one more iteration before stopping, a lazy one stops first, and an
  iteration that consumes nothing is rejected.
\<close>

function ms :: "regex \<Rightarrow> mstate \<Rightarrow> mstate list" where
  "ms (Atom cs) (p, s, g) =
     (case s of [] \<Rightarrow> [] | c # t \<Rightarrow> if cmatch cs c then [(Some c, t, g)] else [])"
| "ms Eps st = [st]"
| "ms (Seq a b) st = concat (map (ms b) (ms a st))"
| "ms (Alt a b) st = ms a st @ ms b st"
| "ms (Star a) (p, s, g) =
     concat (map (\<lambda>(p', s', g'). if length s' < length s then ms (Star a) (p', s', g') else [])
                 (ms a (p, s, g))) @ [(p, s, g)]"
| "ms (LazyStar a) (p, s, g) =
     (p, s, g) #
     concat (map (\<lambda>(p', s', g'). if length s' < length s then ms (LazyStar a) (p', s', g') else [])
                 (ms a (p, s, g)))"
| "ms (Group n a) (p, s, g) =
     map (\<lambda>(p', s', g'). (p', s', (n, take (length s - length s') s) # g')) (ms a (p, s, g))"
| "ms Bol (p, s, g) = (if p = None then [(p, s, g)] else [])"
| "ms BolM (p, s, g) =
     (case p of None \<Rightarrow> [(p, s, g)] | Some c \<Rightarrow> if is_line_term c then [(p, s, g)] else [])"
| "ms Eol (p, s, g) = (if s = [] then [(p, s, g)] else [])"
| "ms WordB (p, s, g) = (if word_before p = word_after s then [] else [(p, s, g)])"
  by pat_completeness auto
termination
  by (relation "measures [\<lambda>(r, st). size r, \<lambda>(r, p, s, g). length s]") auto

text \<open>The two star equations unfold themselves; they are applied by hand.\<close>

declare ms.simps(5) [simp del]

declare ms.simps(6) [simp del]

subsection \<open>Pattern notation\<close>

fun lit :: "string \<Rightarrow> regex" where
  "lit [] = Eps"
| "lit (c # cs) = Seq (Atom (OneOf [c])) (lit cs)"

text \<open>A literal under the \<open>i\<close> flag: each ASCII letter matches in both cases.\<close>

fun liti :: "string \<Rightarrow> regex" where
  "liti [] = Eps"
| "liti (c # cs) = Seq (Atom (OneOf [to_lower c, to_upper c])) (liti cs)"

fun seqs :: "regex list \<Rightarrow> regex" where
  "seqs [] = Eps"
| "seqs (r # rs) = Seq r (seqs rs)"

definition Plus :: "regex \<Rightarrow> regex" where
  "Plus r = Seq r (Star r)"

definition LazyPlus :: "regex \<Rightarrow> regex" where
  "LazyPlus r = Seq r (LazyStar r)"

definition Opt :: "regex \<Rightarrow> regex" where
  "Opt r = Alt r Eps"

definition sp :: regex where
  "sp = Atom Space"

definition wordc :: regex where
  "wordc = Atom (OneOf word_chars)"

subsection \<open>exec, test and replace\<close>

type_synonym caps = "(nat \<times> string) list"

text \<open>A capture that did not take part in the match reads as the empty string.\<close>

definition grp :: "caps \<Rightarrow> nat \<Rightarrow> string" where
  "grp g n = (case map_of g n of Some x \<Rightarrow> x | None \<Rightarrow> [])"

text \<open>The match of \<open>r\<close> that starts exactly here, if any; capture 0 is the whole match.\<close>

definition match_at :: "regex \<Rightarrow> char option \<Rightarrow> string \<Rightarrow> mstate option" where
  "match_at r p s = (case ms (Group 0 r) (p, s, []) of [] \<Rightarrow> None | st # _ \<Rightarrow> Some st)"

text \<open>The leftmost match: the text before it, its captures, the text after it.\<close>

fun search_from :: "regex \<Rightarrow> char option \<Rightarrow> string \<Rightarrow> (string \<times> caps \<times> string) option" where
  "search_from r p [] =
     (case match_at r p [] of Some (p', s', g) \<Rightarrow> Some ([], g, s') | None \<Rightarrow> None)"
| "search_from r p (c # t) =
     (case match_at r p (c # t) of
        Some (p', s', g) \<Rightarrow> Some ([], g, s')
      | None \<Rightarrow>
          (case search_from r (Some c) t of
             None \<Rightarrow> None
           | Some (pre, g, post) \<Rightarrow> Some (c # pre, g, post)))"

definition test :: "regex \<Rightarrow> string \<Rightarrow> bool" where
  "test r s = (case search_from r None s of None \<Rightarrow> False | Some _ \<Rightarrow> True)"

text \<open>\<open>s.replace(r, f)\<close> for a pattern without the \<open>g\<close> flag: the leftmost match only.\<close>

definition replace1 :: "regex \<Rightarrow> (caps \<Rightarrow> string) \<Rightarrow> string \<Rightarrow> string" where
  "replace1 r f s =
     (case search_from r None s of None \<Rightarrow> s | Some (pre, g, post) \<Rightarrow> pre @ f g @ post)"

text \<open>
  \<open>s.replace(r, f)\<close> for a pattern with the \<open>g\<close> flag, where the callback may update the
  variables it closes over (the state \<open>a\<close>): matches are taken left to right without
  overlap, and after an empty match the scan moves on by one code unit.
\<close>

function replace_from ::
  "regex \<Rightarrow> (caps \<Rightarrow> 'a \<Rightarrow> string \<times> 'a) \<Rightarrow> char option \<Rightarrow> string \<Rightarrow> 'a \<Rightarrow> string \<times> 'a" where
  "replace_from r f p s a =
     (case match_at r p s of
        Some (p', s', g) \<Rightarrow>
          (case f g a of (out, a') \<Rightarrow>
             if length s' < length s then
               (case replace_from r f p' s' a' of (rest, a'') \<Rightarrow> (out @ rest, a''))
             else
               (case s of
                  [] \<Rightarrow> (out, a')
                | c # t \<Rightarrow>
                    (case replace_from r f (Some c) t a' of (rest, a'') \<Rightarrow> (out @ c # rest, a''))))
      | None \<Rightarrow>
          (case s of
             [] \<Rightarrow> ([], a)
           | c # t \<Rightarrow> (case replace_from r f (Some c) t a of (rest, a'') \<Rightarrow> (c # rest, a''))))"
  by pat_completeness auto
termination
  by (relation "measure (\<lambda>(r, f, p, s, a). length s)") auto

declare replace_from.simps [simp del]

definition replaceAll :: "regex \<Rightarrow> (caps \<Rightarrow> string) \<Rightarrow> string \<Rightarrow> string" where
  "replaceAll r f s = fst (replace_from r (\<lambda>g u. (f g, u)) None s ())"

text \<open>\<open>s.split(r)\<close> for a pattern that has no capture and never matches the empty string.\<close>

fun cons_hd :: "char \<Rightarrow> string list \<Rightarrow> string list" where
  "cons_hd c [] = [[c]]"
| "cons_hd c (l # ls) = (c # l) # ls"

function split_from :: "regex \<Rightarrow> char option \<Rightarrow> string \<Rightarrow> string list" where
  "split_from r p [] = [[]]"
| "split_from r p (c # t) =
     (case match_at r p (c # t) of
        Some (p', s', g) \<Rightarrow>
          if length s' < Suc (length t) then [] # split_from r p' s'
          else cons_hd c (split_from r (Some c) t)
      | None \<Rightarrow> cons_hd c (split_from r (Some c) t))"
  by pat_completeness auto
termination
  by (relation "measure (\<lambda>(r, p, s). length s)") auto

fun join :: "string \<Rightarrow> string list \<Rightarrow> string" where
  "join sep [] = []"
| "join sep [l] = l"
| "join sep (l # ls) = l @ sep @ join sep ls"

section \<open>stripMermaidFences (server.mjs and main.js, the same text in both)\<close>

definition fence :: string where
  "fence = ''```''"

text \<open>\<open>/^```(?:mermaid)?\s*/i\<close>\<close>

definition re_fence_open_tagged :: regex where
  "re_fence_open_tagged = seqs [Bol, lit fence, Opt (liti ''mermaid''), Star sp]"

text \<open>\<open>/\s*```$/i\<close>\<close>

definition re_fence_close :: regex where
  "re_fence_close = seqs [Star sp, lit fence, Eol]"

text \<open>\<open>/^```/\<close>, \<open>/```$/\<close> and \<open>/^```\s*/i\<close>\<close>

definition re_fence_at_start :: regex where
  "re_fence_at_start = seqs [Bol, lit fence]"

definition re_fence_at_end :: regex where
  "re_fence_at_end = seqs [lit fence, Eol]"

definition re_fence_open :: regex where
  "re_fence_open = seqs [Bol, lit fence, Star sp]"

definition stripMermaidFences :: "string \<Rightarrow> string" where
  "stripMermaidFences s =
     (if s = [] then []
      else
        let t = trim s;
            t = replace1 re_fence_close (\<lambda>_. []) (replace1 re_fence_open_tagged (\<lambda>_. []) t);
            t = (if test re_fence_at_start t \<and> test re_fence_at_end t
                 then replace1 re_fence_close (\<lambda>_. []) (replace1 re_fence_open (\<lambda>_. []) t)
                 else t)
        in trim t)"

section \<open>mermaidKindConfig (server.mjs)\<close>

text \<open>
  The three prompt texts are long template literals whose wording nothing below depends
  on; they are named, not copied. \<open>NoGuard\<close> is the empty string.
\<close>

datatype guard = UsecaseGuard | ActivityGuard | ClassGuard | NoGuard

record kind_config =
  token :: string
  direction :: string
  guard :: guard

text \<open>\<open>String(kind || '')\<close>: a missing kind arrives as the empty string.\<close>

definition mermaidKindConfig :: "string \<Rightarrow> kind_config" where
  "mermaidKindConfig kind =
     (let k = toLowerCase kind in
      if k = ''usecase'' then \<lparr>token = ''flowchart'', direction = ''LR'', guard = UsecaseGuard\<rparr>
      else if k = ''activity'' then \<lparr>token = ''flowchart'', direction = ''TD'', guard = ActivityGuard\<rparr>
      else if k = ''sequence'' then \<lparr>token = ''sequenceDiagram'', direction = [], guard = NoGuard\<rparr>
      else if k = ''class'' then \<lparr>token = ''classDiagram'', direction = [], guard = ClassGuard\<rparr>
      else \<lparr>token = ''flowchart'', direction = ''TD'', guard = NoGuard\<rparr>)"

section \<open>normalizeMermaidOutput (server.mjs)\<close>

text \<open>\<open>/\r?\n/\<close>\<close>

definition re_newline :: regex where
  "re_newline = seqs [Opt (lit [CHR 0x0D]), lit [CHR 0x0A]]"

text \<open>\<open>/^usecaseDiagram\b/i\<close> and \<open>/^activityDiagram\b/i\<close>\<close>

definition re_usecase_token :: regex where
  "re_usecase_token = seqs [Bol, liti ''usecaseDiagram'', WordB]"

definition re_activity_token :: regex where
  "re_activity_token = seqs [Bol, liti ''activityDiagram'', WordB]"

text \<open>\<open>/<<\s*actor\s*>>/gi\<close> and its two siblings\<close>

definition re_stereo :: "string \<Rightarrow> regex" where
  "re_stereo w = seqs [lit ''<<'', Star sp, liti w, Star sp, lit ''>>'']"

definition guillemets :: "string \<Rightarrow> string" where
  "guillemets w = [CHR 0xAB] @ w @ [CHR 0xBB]"

definition stereotypes :: "string \<Rightarrow> string" where
  "stereotypes s =
     replaceAll (re_stereo ''extend'') (\<lambda>_. guillemets ''extend'')
       (replaceAll (re_stereo ''include'') (\<lambda>_. guillemets ''include'')
         (replaceAll (re_stereo ''actor'') (\<lambda>_. guillemets ''actor'') s))"

text \<open>The header correction, lines 221 to 227: the first line only, the direction by token.\<close>

definition correctHeader :: "string \<Rightarrow> string" where
  "correctHeader s =
     (let lines = split_from re_newline None s;
          first = trim (case lines of [] \<Rightarrow> [] | l # _ \<Rightarrow> l);
          rest = join [CHR 0x0A] (tl lines);
          s = (if test re_usecase_token first then ''flowchart LR'' @ [CHR 0x0A] @ rest else s);
          s = (if test re_activity_token first then ''flowchart TD'' @ [CHR 0x0A] @ rest else s)
      in s)"

definition normalizeMermaidOutput :: "string \<Rightarrow> string \<Rightarrow> string" where
  "normalizeMermaidOutput kind text = stereotypes (correctHeader (stripMermaidFences text))"

section \<open>The identifier table of the anonymous-node allocator\<close>

text \<open>
  \<open>idMap\<close> is one JavaScript \<open>Map\<close> that holds both the entries \<open>key \<mapsto> id\<close> and the
  entries \<open>id \<mapsto> true\<close>; \<open>seq\<close> is the counter of the placeholder names.
\<close>

datatype idval = IdStr string | IdTrue

record symtab =
  idMap :: "(string \<times> idval) list"
  seq :: nat

definition empty_tab :: symtab where
  "empty_tab = \<lparr>idMap = [], seq = 1\<rparr>"

definition has :: "(string \<times> idval) list \<Rightarrow> string \<Rightarrow> bool" where
  "has m k = (case map_of m k of None \<Rightarrow> False | Some _ \<Rightarrow> True)"

text \<open>What \<open>`${idMap.get(key)}`\<close> prints.\<close>

definition get_str :: "(string \<times> idval) list \<Rightarrow> string \<Rightarrow> string" where
  "get_str m k =
     (case map_of m k of Some (IdStr v) \<Rightarrow> v | Some IdTrue \<Rightarrow> ''true'' | None \<Rightarrow> ''undefined'')"

definition digit_char :: "nat \<Rightarrow> char" where
  "digit_char n = digits ! (n mod 10)"

fun show_nat :: "nat \<Rightarrow> string" where
  "show_nat n = (if n < 10 then [digit_char n] else show_nat (n div 10) @ [digit_char (n mod 10)])"

declare show_nat.simps [simp del]

text \<open>\<open>`${base}_${i}`\<close>\<close>

definition suffixed :: "string \<Rightarrow> nat \<Rightarrow> string" where
  "suffixed base i = base @ ''_'' @ show_nat i"

text \<open>\<open>/[^a-z0-9]+/g\<close> and \<open>/^_+|_+$/g\<close>\<close>

definition re_non_alnum :: regex where
  "re_non_alnum = Plus (Atom (NoneOf (lowers @ digits)))"

definition re_edge_underscores :: regex where
  "re_edge_underscores = Alt (Seq Bol (Plus (lit ''_''))) (Seq (Plus (lit ''_'')) Eol)"

definition slug_text :: "string \<Rightarrow> string" where
  "slug_text s =
     replaceAll re_edge_underscores (\<lambda>_. []) (replaceAll re_non_alnum (\<lambda>_. ''_'') (toLowerCase s))"

definition slug :: "string \<Rightarrow> symtab \<Rightarrow> string \<times> symtab" where
  "slug s st =
     (let r = slug_text s in
      if r = [] then (''n'' @ show_nat (seq st), st\<lparr>seq := seq st + 1\<rparr>) else (r, st))"

text \<open>
  The decimal rendering is injective, so the suffixes \<open>_2\<close>, \<open>_3\<close>, ... of one base are
  pairwise different names and only finitely many of them are in the table.
\<close>

lemma digit_char_inj: "a < 10 \<Longrightarrow> b < 10 \<Longrightarrow> digit_char a = digit_char b \<Longrightarrow> a = b"
proof -
  assume a: "a < 10" and b: "b < 10" and e: "digit_char a = digit_char b"
  have d: "distinct digits" and l: "length digits = 10" by (simp_all add: digits_def)
  from e a b have "digits ! a = digits ! b" by (simp add: digit_char_def)
  with d l a b show "a = b" by (simp add: nth_eq_iff_index_eq)
qed

lemma show_nat_nonempty: "show_nat n \<noteq> []"
  by (subst show_nat.simps) simp

lemma show_nat_small: "n < 10 \<Longrightarrow> show_nat n = [digit_char n]"
  by (subst show_nat.simps) simp

lemma show_nat_big: "\<not> n < 10 \<Longrightarrow> show_nat n = show_nat (n div 10) @ [digit_char (n mod 10)]"
  by (subst show_nat.simps) simp

lemma show_nat_inj_aux: "show_nat a = show_nat b \<Longrightarrow> a = b"
proof (induction a arbitrary: b rule: show_nat.induct)
  case (1 n)
  show ?case
  proof (cases "n < 10")
    case True
    have b: "b < 10"
    proof (rule ccontr)
      assume "\<not> b < 10"
      then show False
        using "1.prems" show_nat_nonempty[of "b div 10"] show_nat_small[OF True] show_nat_big[of b]
        by simp
    qed
    show ?thesis
      using "1.prems" show_nat_small[OF True] show_nat_small[OF b] digit_char_inj[OF True b]
      by simp
  next
    case False
    have b: "\<not> b < 10"
    proof
      assume "b < 10"
      then show False
        using "1.prems" show_nat_nonempty[of "n div 10"] show_nat_small[of b] show_nat_big[OF False]
        by simp
    qed
    from show_nat_big[OF False] show_nat_big[OF b] "1.prems"
    have e1: "show_nat (n div 10) = show_nat (b div 10)"
      and e2: "digit_char (n mod 10) = digit_char (b mod 10)" by simp_all
    from "1.IH"[OF False e1] have d: "n div 10 = b div 10" .
    have m: "n mod 10 = b mod 10" by (rule digit_char_inj[OF _ _ e2]) simp_all
    show ?thesis using d m by (metis div_mult_mod_eq)
  qed
qed

lemma suffixed_inj: "suffixed base i = suffixed base j \<Longrightarrow> i = j"
  by (simp add: suffixed_def show_nat_inj_aux)

lemma finite_taken: "finite {j. has m (suffixed base j)}"
proof -
  have "{j. has m (suffixed base j)} \<subseteq> suffixed base -` dom (map_of m)"
    by (auto simp: has_def split: option.splits)
  moreover have "finite (suffixed base -` dom (map_of m))"
    by (rule finite_vimageI) (auto simp: finite_dom_map_of inj_on_def dest: suffixed_inj)
  ultimately show ?thesis by (rule finite_subset)
qed

text \<open>
  \<open>let v = base; let i = 2; while (idMap.has(v)) v = `${base}_${i++}`;\<close>
  The loop ends because the table is finite.
\<close>

function ensure_loop :: "(string \<times> idval) list \<Rightarrow> string \<Rightarrow> string \<Rightarrow> nat \<Rightarrow> string" where
  "ensure_loop m base v i =
     (if has m v then ensure_loop m base (suffixed base i) (Suc i) else v)"
  by pat_completeness auto
termination
proof (relation "measure (\<lambda>(m, base, v, i).
         card {j. i \<le> j \<and> has m (suffixed base j)} + (if has m v then 1 else 0))", goal_cases)
  case 1
  show ?case by simp
next
  case (2 m base v i)
  let ?A = "{j. i \<le> j \<and> has m (suffixed base j)}"
  let ?B = "{j. Suc i \<le> j \<and> has m (suffixed base j)}"
  have fin: "finite ?A" using finite_taken[of m base] by (rule rev_finite_subset) auto
  have finB: "finite ?B" using finite_taken[of m base] by (rule rev_finite_subset) auto
  show ?case
  proof (cases "has m (suffixed base i)")
    case True
    then have "?A = insert i ?B" by (auto simp: Suc_le_eq le_less)
    moreover have "i \<notin> ?B" by simp
    ultimately have "card ?A = Suc (card ?B)" using finB by simp
    with 2 True show ?thesis by simp
  next
    case False
    then have "?A = ?B" by (auto simp: Suc_le_eq le_less)
    with 2 False show ?thesis by simp
  qed
qed

declare ensure_loop.simps [simp del]

definition ensureId :: "string \<Rightarrow> string \<Rightarrow> symtab \<Rightarrow> string \<times> symtab" where
  "ensureId key base st =
     (if has (idMap st) key then (get_str (idMap st) key, st)
      else
        let v = ensure_loop (idMap st) base base 2
        in (v, st\<lparr>idMap := (v, IdTrue) # (key, IdStr v) # idMap st\<rparr>))"

section \<open>The patterns of sanitizeActivityFlowchart and sanitizeActivityFlowchartClient\<close>

definition nl :: string where
  "nl = [CHR 0x0A]"

definition letter :: regex where
  "letter = Atom (OneOf (uppers @ lowers))"

text \<open>\<open>(-->|-\.->|\.\.->)\<close> without its capture\<close>

definition arrow :: regex where
  "arrow = Alt (lit ''-->'') (Alt (lit ''-.->'') (lit ''..->''))"

text \<open>\<open>/^\s*(graph|flowchart)\s+[A-Z]{1,2}/i\<close>\<close>

definition re_force_header :: regex where
  "re_force_header =
     seqs [Bol, Star sp, Group 1 (Alt (liti ''graph'') (liti ''flowchart'')), Plus sp,
           letter, Opt letter]"

text \<open>\<open>/(^|\s)start\(\(\s*Start\s*\)\)/ig\<close> and \<open>/(^|\s)end\(\(\s*End\s*\)\)/ig\<close>\<close>

definition re_reserved_decl :: "string \<Rightarrow> regex" where
  "re_reserved_decl w =
     seqs [Group 1 (Alt Bol sp), liti w, lit ''(('', Star sp, liti w, Star sp, lit ''))'']"

text \<open>\<open>/(\s-->\s*)end\(\(\s*End\s*\)\)/ig\<close> and its sibling for start\<close>

definition re_reserved_inline :: "string \<Rightarrow> regex" where
  "re_reserved_inline w =
     seqs [Group 1 (seqs [sp, lit ''-->'', Star sp]), liti w, lit ''(('', Star sp, liti w,
           Star sp, lit ''))'']"

text \<open>\<open>/(-->|-\.->|\.\.->)\s*end\b/ig\<close> and \<open>/\bend\b\s*(-->|-\.->|\.\.->)/ig\<close>\<close>

definition re_ref_to :: "string \<Rightarrow> regex" where
  "re_ref_to w = seqs [Group 1 arrow, Star sp, liti w, WordB]"

definition re_ref_from :: "string \<Rightarrow> regex" where
  "re_ref_from w = seqs [WordB, liti w, WordB, Star sp, Group 1 arrow]"

text \<open>The eight replacements of the reserved identifiers, in the order both sources have.\<close>

definition renameReserved :: "string \<Rightarrow> string" where
  "renameReserved t =
     (let t = replaceAll (re_reserved_decl ''start'') (\<lambda>g. grp g 1 @ ''startNode((Start))'') t;
          t = replaceAll (re_reserved_decl ''end'') (\<lambda>g. grp g 1 @ ''endNode((End))'') t;
          t = replaceAll (re_reserved_inline ''end'') (\<lambda>g. grp g 1 @ ''endNode((End))'') t;
          t = replaceAll (re_reserved_inline ''start'') (\<lambda>g. grp g 1 @ ''startNode((Start))'') t;
          t = replaceAll (re_ref_to ''end'') (\<lambda>g. grp g 1 @ '' endNode'') t;
          t = replaceAll (re_ref_from ''end'') (\<lambda>g. ''endNode '' @ grp g 1) t;
          t = replaceAll (re_ref_to ''start'') (\<lambda>g. grp g 1 @ '' startNode'') t;
          t = replaceAll (re_ref_from ''start'') (\<lambda>g. ''startNode '' @ grp g 1) t
      in t)"

text \<open>\<open>/--\|([^|]+)\|-->/g\<close> and \<open>/--\|([^|]+)\|\s+([A-Za-z_][\w]*)/g\<close>\<close>

definition re_branch_arrow :: regex where
  "re_branch_arrow = seqs [lit ''--|'', Group 1 (Plus (Atom (NoneOf ''|''))), lit ''|-->'']"

definition re_branch_target :: regex where
  "re_branch_target =
     seqs [lit ''--|'', Group 1 (Plus (Atom (NoneOf ''|''))), lit ''|'', Plus sp,
           Group 2 (Seq (Atom (OneOf (uppers @ lowers @ ''_''))) (Star wordc))]"

definition fixBranchLabels :: "string \<Rightarrow> string" where
  "fixBranchLabels t =
     replaceAll re_branch_target (\<lambda>g. ''-->|'' @ grp g 1 @ ''| '' @ grp g 2)
       (replaceAll re_branch_arrow (\<lambda>g. ''-->|'' @ grp g 1 @ ''|'') t)"

text \<open>
  \<open>/(^|\s)(\[\s*([^\[\]\n]+?)\s*\])(:::[\w-]+)?/g\<close> and its siblings for \<open>((...))\<close> and
  \<open>{...}\<close>: the pattern of a label-only node between \<open>opn\<close> and \<open>cls\<close>, whose label has
  none of the characters \<open>excl\<close>.
\<close>

definition re_anonymous :: "string \<Rightarrow> string \<Rightarrow> string \<Rightarrow> regex" where
  "re_anonymous opn cls excl =
     seqs [Group 1 (Alt Bol sp),
           Group 2 (seqs [lit opn, Star sp, Group 3 (LazyPlus (Atom (NoneOf excl))), Star sp, lit cls]),
           Opt (Group 4 (seqs [lit '':::'', Plus (Atom (OneOf (word_chars @ ''-'')))]))]"

text \<open>\<open>/[A-Za-z0-9_]\[$/\<close> and \<open>/[A-Za-z0-9_]\{$/\<close>, tested on the first capture\<close>

definition re_has_id :: "string \<Rightarrow> regex" where
  "re_has_id opn = seqs [wordc, lit opn, Eol]"

text \<open>
  The identifier of a label-only node: the three callbacks compute a base name from the
  label and ask \<open>ensureId\<close> for the identifier of the node key.
\<close>

definition rect_id :: "string \<Rightarrow> symtab \<Rightarrow> string \<times> symtab" where
  "rect_id label st =
     (case slug label st of (base, st) \<Rightarrow> ensureId (''[]:'' @ label) base st)"

text \<open>
  For \<open>((label))\<close> the server names the terminals \<open>endNode\<close> and \<open>startNode\<close>, the client
  \<open>end\<close> and \<open>start\<close>; nothing else differs.
\<close>

definition circle_id :: "string \<Rightarrow> string \<Rightarrow> string \<Rightarrow> symtab \<Rightarrow> string \<times> symtab" where
  "circle_id endName startName label st =
     (case (if test (liti ''end'') label then (endName, st)
            else if test (liti ''start'') label then (startName, st)
            else slug label st) of (base, st) \<Rightarrow>
        ensureId (''(('' @ label @ ''))'') base st)"

definition diamond_id :: "string \<Rightarrow> symtab \<Rightarrow> string \<times> symtab" where
  "diamond_id label st =
     (case slug label st of (base, st) \<Rightarrow> ensureId (''{}:'' @ label) (''q_'' @ base) st)"

definition rect_cb :: "caps \<Rightarrow> symtab \<Rightarrow> string \<times> symtab" where
  "rect_cb g st =
     (let lead = grp g 1; whole = grp g 2; label = grp g 3; klass = grp g 4 in
      if test (re_has_id ''['') lead then (lead @ whole @ klass, st)
      else
        (case rect_id label st of (ident, st) \<Rightarrow>
           (lead @ ident @ ''['' @ label @ '']'' @ klass, st)))"

definition circle_cb :: "string \<Rightarrow> string \<Rightarrow> caps \<Rightarrow> symtab \<Rightarrow> string \<times> symtab" where
  "circle_cb endName startName g st =
     (let lead = grp g 1; label = grp g 3; klass = grp g 4 in
      (case circle_id endName startName label st of (ident, st) \<Rightarrow>
         (lead @ ident @ ''(('' @ label @ ''))'' @ klass, st)))"

definition diamond_cb :: "caps \<Rightarrow> symtab \<Rightarrow> string \<times> symtab" where
  "diamond_cb g st =
     (let lead = grp g 1; whole = grp g 2; label = grp g 3; klass = grp g 4 in
      if test (re_has_id ''{'') lead then (lead @ whole @ klass, st)
      else
        (case diamond_id label st of (ident, st) \<Rightarrow>
           (lead @ ident @ ''{'' @ label @ ''}'' @ klass, st)))"

text \<open>The three passes share one table, created fresh for the call.\<close>

definition allocateIds :: "string \<Rightarrow> string \<Rightarrow> string \<Rightarrow> string" where
  "allocateIds endName startName t =
     (case replace_from (re_anonymous ''['' '']'' (''[]'' @ nl)) rect_cb None t empty_tab of
        (t, st) \<Rightarrow>
     (case replace_from (re_anonymous ''(('' ''))'' (''()'' @ nl)) (circle_cb endName startName)
             None t st of
        (t, st) \<Rightarrow>
     (case replace_from (re_anonymous ''{'' ''}'' (''{}'' @ nl)) diamond_cb None t st of
        (t, st) \<Rightarrow> t)))"

text \<open>\<open>/-->\s*\(\(\s*End\s*\)\)/ig\<close> and its sibling for Start\<close>

definition re_anon_terminal :: "string \<Rightarrow> regex" where
  "re_anon_terminal w = seqs [lit ''-->'', Star sp, lit ''(('', Star sp, liti w, Star sp, lit ''))'']"

text \<open>
  \<open>/\b(?:-->|-\.->|\.\.->)\s*startNode\b|\bstartNode\b\s*(?:-->|-\.->|\.\.->)/i\<close>,
  \<open>/^\s*startNode\(\(/m\<close>, and their siblings for endNode
\<close>

definition re_refs :: "string \<Rightarrow> regex" where
  "re_refs w =
     Alt (seqs [WordB, arrow, Star sp, liti w, WordB]) (seqs [WordB, liti w, WordB, Star sp, arrow])"

definition re_declares :: "string \<Rightarrow> regex" where
  "re_declares w = seqs [BolM, Star sp, lit w, lit ''((''] "

text \<open>\<open>/:::(startend|step|decision|bar)\b/\<close> and \<open>/^\s*classDef\s+/m\<close>\<close>

definition re_uses_classes :: regex where
  "re_uses_classes =
     seqs [lit '':::'',
           Group 1 (Alt (lit ''startend'') (Alt (lit ''step'') (Alt (lit ''decision'') (lit ''bar'')))),
           WordB]"

definition re_has_classdef :: regex where
  "re_has_classdef = seqs [BolM, Star sp, lit ''classDef'', Plus sp]"

definition default_classdefs :: string where
  "default_classdefs =
     nl @ nl @ ''classDef startend fill:#fff,stroke:#888,stroke-width:1px,color:#111;'' @
     nl @ ''classDef bar stroke:#333,stroke-width:4px;'' @
     nl @ ''classDef step fill:#eef,stroke:#99f,color:#001;'' @
     nl @ ''classDef decision fill:#ffd,stroke:#cc4,color:#221;''"

definition injectClassDefs :: "string \<Rightarrow> string" where
  "injectClassDefs t =
     (if test re_uses_classes t \<and> \<not> test re_has_classdef t then t @ default_classdefs else t)"

text \<open>The two declaration lines, in the order the callback appends them.\<close>

definition injection :: "bool \<Rightarrow> bool \<Rightarrow> string" where
  "injection needStart needEnd =
     (if needStart then ''startNode((Start)):::startend'' @ nl else []) @
     (if needEnd then ''endNode((End)):::startend'' @ nl else [])"

section \<open>sanitizeActivityFlowchart (server.mjs)\<close>

text \<open>\<open>/^\s*flowchart\s+TD\b/m\<close> and \<open>/^\s*flowchart\s+TD\s*\n?/\<close>\<close>

definition re_has_header_td :: regex where
  "re_has_header_td = seqs [BolM, Star sp, lit ''flowchart'', Plus sp, lit ''TD'', WordB]"

definition re_header_td_line :: regex where
  "re_header_td_line = seqs [Bol, Star sp, lit ''flowchart'', Plus sp, lit ''TD'', Star sp, Opt (lit nl)]"

definition declareTerminals :: "string \<Rightarrow> string" where
  "declareTerminals t =
     (let hasHeader = test re_has_header_td t;
          declaresStart = test (re_declares ''startNode'') t;
          declaresEnd = test (re_declares ''endNode'') t;
          refsStart = test (re_refs ''startNode'') t;
          refsEnd = test (re_refs ''endNode'') t
      in if hasHeader
         then replace1 re_header_td_line
                (\<lambda>g. grp g 0 @ injection (refsStart \<and> \<not> declaresStart) (refsEnd \<and> \<not> declaresEnd)) t
         else t)"

definition sanitizeActivityFlowchart :: "string \<Rightarrow> string" where
  "sanitizeActivityFlowchart raw =
     (let t = stripMermaidFences raw;
          t = replace1 re_force_header (\<lambda>_. ''flowchart TD'') t;
          t = renameReserved t;
          t = fixBranchLabels t;
          t = allocateIds ''endNode'' ''startNode'' t;
          t = replaceAll (re_anon_terminal ''Start'') (\<lambda>_. ''--> startNode'')
                (replaceAll (re_anon_terminal ''End'') (\<lambda>_. ''--> endNode'') t);
          t = declareTerminals t;
          t = replaceAll (re_anon_terminal ''End'') (\<lambda>_. ''--> endNode'') t
      in injectClassDefs t)"

section \<open>sanitizeActivityFlowchartClient (main.js)\<close>

text \<open>\<open>/^\s*flowchart\s+\w+\b/m\<close> and \<open>/^\s*flowchart\s+\w+\s*\n?/\<close>\<close>

definition re_has_header_any :: regex where
  "re_has_header_any = seqs [BolM, Star sp, lit ''flowchart'', Plus sp, Plus wordc, WordB]"

definition re_header_any_line :: regex where
  "re_header_any_line =
     seqs [Bol, Star sp, lit ''flowchart'', Plus sp, Plus wordc, Star sp, Opt (lit nl)]"

definition declareTerminalsClient :: "string \<Rightarrow> string" where
  "declareTerminalsClient t =
     (let hasHeader = test re_has_header_any t;
          declStart = test (re_declares ''startNode'') t;
          declEnd = test (re_declares ''endNode'') t;
          refStart = test (re_refs ''startNode'') t;
          refEnd = test (re_refs ''endNode'') t
      in if hasHeader \<and> (refStart \<and> \<not> declStart \<or> refEnd \<and> \<not> declEnd)
         then replace1 re_header_any_line
                (\<lambda>g. grp g 0 @ injection (refStart \<and> \<not> declStart) (refEnd \<and> \<not> declEnd)) t
         else t)"

definition sanitizeActivityFlowchartClient :: "string \<Rightarrow> string" where
  "sanitizeActivityFlowchartClient raw =
     (let t = stripMermaidFences raw;
          t = fixBranchLabels t;
          t = replaceAll (re_anon_terminal ''Start'') (\<lambda>_. ''--> startNode'')
                (replaceAll (re_anon_terminal ''End'') (\<lambda>_. ''--> endNode'') t);
          t = renameReserved t;
          t = allocateIds ''end'' ''start'' t;
          t = declareTerminalsClient t
      in injectClassDefs t)"

section \<open>The conversion routes (server.mjs, lines 551 to 553 and 590 to 592)\<close>

definition normalize :: "string \<Rightarrow> string \<Rightarrow> string" where
  "normalize kind raw =
     (let mermaid = normalizeMermaidOutput kind raw
      in if toLowerCase kind = ''activity'' then sanitizeActivityFlowchart mermaid else mermaid)"

section \<open>Notions used in the proofs\<close>

text \<open>
  A node key starts with a bracket, an identifier never does; so a key is never taken for
  an identifier and \<open>idMap.get(key)\<close> is always a string.
\<close>

definition is_key :: "string \<Rightarrow> bool" where
  "is_key k = (case k of [] \<Rightarrow> False | c # _ \<Rightarrow> c \<in> set ''[({'')"

text \<open>
  The shape of a table that the allocator has built: node keys carry identifiers that are
  marked as used, every other entry is such a mark, and no identifier serves two keys.
\<close>

definition tab_ok :: "(string \<times> idval) list \<Rightarrow> bool" where
  "tab_ok m =
     ((\<forall>k x. map_of m k = Some x \<and> is_key k \<longrightarrow>
         (\<exists>v. x = IdStr v \<and> \<not> is_key v \<and> map_of m v = Some IdTrue)) \<and>
      (\<forall>k x. map_of m k = Some x \<and> \<not> is_key k \<longrightarrow> x = IdTrue) \<and>
      (\<forall>k1 k2 v. map_of m k1 = Some (IdStr v) \<and> map_of m k2 = Some (IdStr v) \<longrightarrow> k1 = k2))"

text \<open>The code unit before the position reached after reading \<open>w\<close>.\<close>

definition lastp :: "char option \<Rightarrow> string \<Rightarrow> char option" where
  "lastp p w = (if w = [] then p else Some (last w))"

text \<open>No match starts inside \<open>u\<close> when \<open>u\<close> is followed by \<open>s\<close>.\<close>

definition nomatch :: "regex \<Rightarrow> string \<Rightarrow> string \<Rightarrow> bool" where
  "nomatch r u s = (\<forall>u1 u2 p. u = u1 @ u2 \<and> u2 \<noteq> [] \<longrightarrow> match_at r p (u2 @ s) = None)"

text \<open>A text that \<open>trim\<close> leaves as it is.\<close>

definition trimmed :: "string \<Rightarrow> bool" where
  "trimmed s = (s = [] \<or> (\<not> is_space (hd s) \<and> \<not> is_space (last s)))"

text \<open>The first result of the matcher: the match that the runtime takes.\<close>

definition first_ms :: "regex \<Rightarrow> mstate \<Rightarrow> mstate option" where
  "first_ms r st = (case ms r st of [] \<Rightarrow> None | x # _ \<Rightarrow> Some x)"


text \<open>
  Reading a text without patterns. \<open>same_letter c x\<close>: \<open>x\<close> is the letter \<open>c\<close> in lower or
  upper case; \<open>ci_prefix w s\<close>: \<open>s\<close> starts with the word \<open>w\<close>, in any case;
  \<open>starts_with_token w x\<close>: \<open>x\<close> starts with \<open>w\<close> in any case and no word character follows.
\<close>

definition same_letter :: "char \<Rightarrow> char \<Rightarrow> bool" where
  "same_letter c x = (x = to_lower c \<or> x = to_upper c)"

fun ci_prefix :: "string \<Rightarrow> string \<Rightarrow> bool" where
  "ci_prefix [] s = True"
| "ci_prefix (c # w) [] = False"
| "ci_prefix (c # w) (x # s) = (same_letter c x \<and> ci_prefix w s)"

definition starts_with_token :: "string \<Rightarrow> string \<Rightarrow> bool" where
  "starts_with_token w x = (ci_prefix w x \<and> \<not> word_after (drop (length w) x))"

text \<open>The text with every line break written CR LF rewritten to LF.\<close>

fun crlf_to_lf :: "string \<Rightarrow> string" where
  "crlf_to_lf [] = []"
| "crlf_to_lf [c] = [c]"
| "crlf_to_lf (c # d # s) =
     (if c = CHR 0x0D \<and> d = CHR 0x0A then CHR 0x0A # crlf_to_lf s else c # crlf_to_lf (d # s))"

text \<open>
  The fence stripper said without patterns. \<open>drop_open_fence\<close> removes a leading fence, the
  tag \<open>mermaid\<close> in any case if it is asked to, and the whitespace that follows;
  \<open>drop_close_fence\<close> removes a fence at the very end and the whitespace before it. The
  stripper applies both to the trimmed text, then both once more (no tag this time) if what
  is left starts and ends with a fence, and trims the result.
\<close>

definition rtrim :: "string \<Rightarrow> string" where
  "rtrim s = rev (dropWhile is_space (rev s))"

definition drop_open_fence :: "bool \<Rightarrow> string \<Rightarrow> string" where
  "drop_open_fence tagged t =
     (if prefix fence t then
        let r = drop (length fence) t;
            r = (if tagged \<and> ci_prefix ''mermaid'' r then drop (length ''mermaid'') r else r)
        in dropWhile is_space r
      else t)"

definition drop_close_fence :: "string \<Rightarrow> string" where
  "drop_close_fence t = (if suffix fence t then rtrim (take (length t - length fence) t) else t)"

definition strip_fences_spec :: "string \<Rightarrow> string" where
  "strip_fences_spec s =
     (if s = [] then []
      else
        let t = drop_close_fence (drop_open_fence True (trim s));
            t = (if prefix fence t \<and> suffix fence t
                 then drop_close_fence (drop_open_fence False t) else t)
        in trim t)"

text \<open>
  The branch-label correction said without patterns. \<open>branch_arrow_at s\<close>: the text \<open>s\<close>
  starts with \<open>--|\<close>, a non-empty label without a bar, and \<open>|-->\<close>; the result is the label
  and the text after the occurrence. \<open>branch_target_at s\<close>: the text starts with \<open>--|\<close>, such
  a label, \<open>|\<close>, a non-empty run of whitespace and an identifier (a letter or underscore and
  the word characters that follow); the result is the label, the identifier and the text
  after it. \<open>fix_arrows\<close> and \<open>fix_targets\<close> scan a text from the left: at an occurrence
  they write the corrected form and go on after the occurrence, elsewhere they copy one
  character and go on with the next.
\<close>

definition not_bar :: "char \<Rightarrow> bool" where
  "not_bar c = (c \<noteq> CHR ''|'')"

definition is_id_start :: "char \<Rightarrow> bool" where
  "is_id_start c = (c \<in> set (uppers @ lowers @ ''_''))"

definition branch_arrow_at :: "string \<Rightarrow> (string \<times> string) option" where
  "branch_arrow_at s =
     (if prefix ''--|'' s then
        let r = drop (length ''--|'') s; L = takeWhile not_bar r; r = dropWhile not_bar r
        in if L \<noteq> [] \<and> prefix ''|-->'' r then Some (L, drop (length ''|-->'') r) else None
      else None)"

definition branch_target_at :: "string \<Rightarrow> (string \<times> string \<times> string) option" where
  "branch_target_at s =
     (if prefix ''--|'' s then
        let r = drop (length ''--|'') s; L = takeWhile not_bar r; r = dropWhile not_bar r
        in if L \<noteq> [] \<and> prefix ''|'' r then
             let r = drop (length ''|'') r; w = takeWhile is_space r; r = dropWhile is_space r
             in if w \<noteq> [] \<and> r \<noteq> [] \<and> is_id_start (hd r)
                then Some (L, hd r # takeWhile is_word (tl r), dropWhile is_word (tl r))
                else None
           else None
      else None)"

lemma branch_arrow_at_shorter: "branch_arrow_at s = Some (L, rest) \<Longrightarrow> length rest < length s"
proof -
  assume a: "branch_arrow_at s = Some (L, rest)"
  then have p: "prefix ''--|'' s"
    and r: "rest = drop (length ''|-->'') (dropWhile not_bar (drop (length ''--|'') s))"
    by (auto simp: branch_arrow_at_def Let_def split: if_splits)
  from p have "3 \<le> length s" by (auto simp: prefix_def)
  moreover have "length rest \<le> length s - 3"
    unfolding r using length_dropWhile_le[of not_bar "drop (length ''--|'') s"] by simp
  ultimately show ?thesis by simp
qed

lemma branch_target_at_shorter:
  "branch_target_at s = Some (L, I, rest) \<Longrightarrow> length rest < length s"
proof -
  assume a: "branch_target_at s = Some (L, I, rest)"
  then have p: "prefix ''--|'' s"
    and r: "rest = dropWhile is_word (tl (dropWhile is_space (drop (length ''|'')
              (dropWhile not_bar (drop (length ''--|'') s)))))"
    by (auto simp: branch_target_at_def Let_def split: if_splits)
  from p have "3 \<le> length s" by (auto simp: prefix_def)
  moreover have "length rest \<le> length s - 3"
  proof -
    let ?a = "dropWhile not_bar (drop (length ''--|'') s)"
    let ?b = "dropWhile is_space (drop (length ''|'') ?a)"
    have "length rest \<le> length (tl ?b)" unfolding r by (rule length_dropWhile_le)
    also have "\<dots> \<le> length ?b" by simp
    also have "\<dots> \<le> length (drop (length ''|'') ?a)" by (rule length_dropWhile_le)
    also have "\<dots> \<le> length ?a" by simp
    also have "\<dots> \<le> length (drop (length ''--|'') s)" by (rule length_dropWhile_le)
    finally show ?thesis by simp
  qed
  ultimately show ?thesis by simp
qed

function fix_arrows :: "string \<Rightarrow> string" where
  "fix_arrows s =
     (case branch_arrow_at s of
        Some (L, rest) \<Rightarrow> ''-->|'' @ L @ ''|'' @ fix_arrows rest
      | None \<Rightarrow> (case s of [] \<Rightarrow> [] | c # t \<Rightarrow> c # fix_arrows t))"
  by pat_completeness auto
termination
  by (relation "measure length") (auto dest: branch_arrow_at_shorter)

declare fix_arrows.simps [simp del]

function fix_targets :: "string \<Rightarrow> string" where
  "fix_targets s =
     (case branch_target_at s of
        Some (L, I, rest) \<Rightarrow> ''-->|'' @ L @ ''| '' @ I @ fix_targets rest
      | None \<Rightarrow> (case s of [] \<Rightarrow> [] | c # t \<Rightarrow> c # fix_targets t))"
  by pat_completeness auto
termination
  by (relation "measure length") (auto dest: branch_target_at_shorter)

declare fix_targets.simps [simp del]

text \<open>
  Over-approximations read off a pattern: \<open>emp r\<close>, the pattern may match without
  consuming; \<open>adv r c\<close>, it may match a text that starts with \<open>c\<close> and consume it;
  \<open>groups r\<close>, the numbers of its captures.
\<close>

fun emp :: "regex \<Rightarrow> bool" where
  "emp (Atom cs) = False"
| "emp (Seq a b) = (emp a \<and> emp b)"
| "emp (Alt a b) = (emp a \<or> emp b)"
| "emp (Group n a) = emp a"
| "emp _ = True"

fun adv :: "regex \<Rightarrow> char \<Rightarrow> bool" where
  "adv (Atom cs) c = cmatch cs c"
| "adv (Seq a b) c = (adv a c \<or> emp a \<and> adv b c)"
| "adv (Alt a b) c = (adv a c \<or> adv b c)"
| "adv (Star a) c = adv a c"
| "adv (LazyStar a) c = adv a c"
| "adv (Group n a) c = adv a c"
| "adv _ c = False"

fun groups :: "regex \<Rightarrow> nat set" where
  "groups (Seq a b) = groups a \<union> groups b"
| "groups (Alt a b) = groups a \<union> groups b"
| "groups (Star a) = groups a"
| "groups (LazyStar a) = groups a"
| "groups (Group n a) = insert n (groups a)"
| "groups _ = {}"



definition plain :: "string \<Rightarrow> bool" where
  "plain x = (CHR ''('' \<notin> set x \<and> CHR ''|'' \<notin> set x)"



section \<open>Claims settled by running the pipelines\<close>

text \<open>
  C1 (idempotence of the whole pipeline). The server pipeline turns the label-only node
  \<open>[End]\<close> into \<open>end[End]\<close>, taking the slug of the label as the identifier; run on that
  output, its own reserved-identifier stage renames the identifier to \<open>endNode\<close>. The second
  pass therefore differs from the first, for the sanitizer alone and for the conversion
  route with the activity hint.
\<close>

theorem server_second_pass_differs:
  "sanitizeActivityFlowchart ''[Work] --> [End]'' = ''work[Work] --> end[End]'' \<and>
   sanitizeActivityFlowchart ''work[Work] --> end[End]'' = ''work[Work] --> endNode[End]'' \<and>
   normalize ''activity'' ''[Work] --> [End]'' = ''work[Work] --> end[End]'' \<and>
   normalize ''activity'' ''work[Work] --> end[End]'' = ''work[Work] --> endNode[End]''"
  by code_simp

text \<open>
  C3 (reserved-word elimination). After the full server pipeline the text can still declare
  and reference a node whose identifier is the bare word \<open>end\<close>: the allocator issues it
  for the label \<open>End\<close> after the reserved-identifier stage has run.
\<close>

theorem server_allocates_reserved_end:
  "sanitizeActivityFlowchart (''flowchart TD'' @ nl @ ''[Work] --> [End]'') =
   ''flowchart TD'' @ nl @ ''work[Work] --> end[End]''"
  by code_simp

text \<open>
  C7 (terminal labels converge on the reserved aliases). For the anonymous circular node
  \<open>((End))\<close> the server allocates \<open>endNode\<close>, the alias of the reserved-identifier stage;
  the client allocates the bare word \<open>end\<close>.
\<close>

theorem client_circle_gets_bare_end:
  "sanitizeActivityFlowchartClient (''flowchart TD'' @ nl @ ''((End))'') =
     ''flowchart TD'' @ nl @ ''end((End))'' \<and>
   sanitizeActivityFlowchart (''flowchart TD'' @ nl @ ''((End))'') =
     ''flowchart TD'' @ nl @ ''endNode((End))''"
  by code_simp

text \<open>
  C9 (declaration completeness). On the input \<open>flowchart TD\<close>, newline,
  \<open>[Measure]-->((End))\<close> both pipelines return a text whose edge refers to \<open>endNode\<close> and
  that has no declaration line for \<open>endNode\<close>: nothing is injected after the header.
\<close>

theorem end_declaration_not_injected:
  "sanitizeActivityFlowchart (''flowchart TD'' @ nl @ ''[Measure]-->((End))'') =
     ''flowchart TD'' @ nl @ ''measure[Measure]--> endNode'' \<and>
   sanitizeActivityFlowchartClient (''flowchart TD'' @ nl @ ''[Measure]-->((End))'') =
     ''flowchart TD'' @ nl @ ''measure[Measure]--> endNode''"
  by code_simp

text \<open>
  C6 (identifier-table invariant within one invocation). In one invocation the two
  occurrences of the label-only node \<open>[B]\<close> do not resolve to the same identifier: the one
  at the start of a line gets \<open>b\<close>, the one that follows an arrow directly is not served
  and keeps no identifier at all. The allocator pattern asks for the start of the text or a
  whitespace character before the bracket, so its test for an identifier character before
  the bracket never sees one.
\<close>

theorem allocator_skips_node_after_arrow:
  "sanitizeActivityFlowchart (''flowchart TD'' @ nl @ ''[A]-->[B]'' @ nl @ ''[B]-->[C]'') =
     ''flowchart TD'' @ nl @ ''a[A]-->[B]'' @ nl @ ''b[B]-->[C]'' \<and>
   sanitizeActivityFlowchartClient (''flowchart TD'' @ nl @ ''[A]-->[B]'' @ nl @ ''[B]-->[C]'') =
     ''flowchart TD'' @ nl @ ''a[A]-->[B]'' @ nl @ ''b[B]-->[C]''"
  by code_simp

section \<open>The default of mermaidKindConfig\<close>

text \<open>
  C10, as stated, fails: the kind is lower-cased before it is compared, so the string
  \<open>USECASE\<close>, which is none of the four words, gets the use-case configuration.
\<close>

theorem mermaidKindConfig_uppercase_counterexample:
  "''USECASE'' \<noteq> ''usecase'' \<and> ''USECASE'' \<noteq> ''activity'' \<and> ''USECASE'' \<noteq> ''sequence'' \<and>
   ''USECASE'' \<noteq> ''class'' \<and>
   mermaidKindConfig ''USECASE'' =
     \<lparr>token = ''flowchart'', direction = ''LR'', guard = UsecaseGuard\<rparr>"
  by code_simp

text \<open>
  C10, amended: for every kind whose lower-cased form is other than usecase, activity,
  sequence and class (the empty string included), \<open>mermaidKindConfig\<close> returns the
  flowchart token with direction TD and an empty guard.
\<close>

theorem mermaidKindConfig_default:
  "toLowerCase kind \<notin> {''usecase'', ''activity'', ''sequence'', ''class''} \<Longrightarrow>
   mermaidKindConfig kind = \<lparr>token = ''flowchart'', direction = ''TD'', guard = NoGuard\<rparr>"
  by (simp add: mermaidKindConfig_def Let_def)

theorem mermaidKindConfig_default_witness:
  "toLowerCase ''Timeline'' \<notin> {''usecase'', ''activity'', ''sequence'', ''class''} \<and>
   toLowerCase [] \<notin> {''usecase'', ''activity'', ''sequence'', ''class''} \<and>
   mermaidKindConfig ''Timeline'' = \<lparr>token = ''flowchart'', direction = ''TD'', guard = NoGuard\<rparr> \<and>
   mermaidKindConfig [] = \<lparr>token = ''flowchart'', direction = ''TD'', guard = NoGuard\<rparr>"
proof -
  have h1: "toLowerCase ''Timeline'' \<notin> {''usecase'', ''activity'', ''sequence'', ''class''}"
    by code_simp
  have h2: "toLowerCase [] \<notin> {''usecase'', ''activity'', ''sequence'', ''class''}"
    by code_simp
  show ?thesis
    using h1 h2 mermaidKindConfig_default[OF h1] mermaidKindConfig_default[OF h2] by simp
qed

section \<open>Properties of the matcher and of replace\<close>

lemma ms_suffix:
  "(p', s', g') \<in> set (ms r (p, s, g)) \<Longrightarrow> suffix s' s"
proof (induction r "(p, s, g)" arbitrary: p s g p' s' g' rule: ms.induct)
  case (1 cs p s g)
  then show ?case by (auto split: list.splits if_splits simp: suffix_Cons)
next
  case (2 p s g)
  then show ?case by simp
next
  case (3 a b p s g)
  from "3.prems" obtain p1 s1 g1 where m1: "(p1, s1, g1) \<in> set (ms a (p, s, g))"
    and m2: "(p', s', g') \<in> set (ms b (p1, s1, g1))" by auto
  from "3.hyps"(1)[OF m1] have "suffix s1 s" .
  moreover from "3.hyps"(2)[OF m1 m2] have "suffix s' s1" .
  ultimately show ?case by (rule suffix_order.trans[rotated])
next
  case (4 a b p s g)
  then show ?case by auto
next
  case (5 a p s g)
  from "5.prems" consider "(p', s', g') = (p, s, g)"
    | p1 s1 g1 where "(p1, s1, g1) \<in> set (ms a (p, s, g))" "length s1 < length s"
        "(p', s', g') \<in> set (ms (Star a) (p1, s1, g1))"
    by (subst (asm) ms.simps) (auto split: if_splits)
  then show ?case
  proof cases
    case 1
    then show ?thesis by simp
  next
    case 2
    from "5.hyps"(1)[OF 2(1)] have "suffix s1 s" .
    moreover from "5.hyps"(2)[OF 2(1) refl refl 2(2) 2(3)] have "suffix s' s1" .
    ultimately show ?thesis by (rule suffix_order.trans[rotated])
  qed
next
  case (6 a p s g)
  from "6.prems" consider "(p', s', g') = (p, s, g)"
    | p1 s1 g1 where "(p1, s1, g1) \<in> set (ms a (p, s, g))" "length s1 < length s"
        "(p', s', g') \<in> set (ms (LazyStar a) (p1, s1, g1))"
    by (subst (asm) ms.simps) (auto split: if_splits)
  then show ?case
  proof cases
    case 1
    then show ?thesis by simp
  next
    case 2
    from "6.hyps"(1)[OF 2(1)] have "suffix s1 s" .
    moreover from "6.hyps"(2)[OF 2(1) refl refl 2(2) 2(3)] have "suffix s' s1" .
    ultimately show ?thesis by (rule suffix_order.trans[rotated])
  qed
next
  case (7 n a p s g)
  then show ?case by auto
next
  case (8 p s g)
  then show ?case by (auto split: if_splits)
next
  case (9 p s g)
  then show ?case by (auto split: option.splits if_splits)
next
  case (10 p s g)
  then show ?case by (auto split: if_splits)
next
  case (11 p s g)
  then show ?case by (auto split: if_splits)
qed

lemma ms_length: "(p', s', g') \<in> set (ms r (p, s, g)) \<Longrightarrow> length s' \<le> length s"
  by (drule ms_suffix) (simp add: suffix_length_le)

lemma ms_Star_nonempty: "ms (Star a) st \<noteq> []"
  by (cases st) (simp add: ms.simps(5))

text \<open>A match of \<open>x+\<close> on a character of the class exists and consumes it.\<close>

lemma match_at_Plus_Atom:
  assumes "cmatch cs c"
  shows "\<exists>p' s' g. match_at (Plus (Atom cs)) p (c # t) = Some (p', s', g) \<and> length s' \<le> length t"
proof -
  obtain x xs where st: "ms (Star (Atom cs)) (Some c, t, []) = x # xs"
    using ms_Star_nonempty[of "Atom cs" "(Some c, t, [])"] by (cases "ms (Star (Atom cs)) (Some c, t, [])") auto
  obtain p1 s1 g1 where x: "x = (p1, s1, g1)" by (cases x)
  have "(p1, s1, g1) \<in> set (ms (Star (Atom cs)) (Some c, t, []))" using st x by simp
  then have "length s1 \<le> length t" by (rule ms_length)
  moreover have "match_at (Plus (Atom cs)) p (c # t) =
      Some (p1, s1, (0, take (Suc (length t) - length s1) (c # t)) # g1)"
    using assms st x by (simp add: match_at_def Plus_def)
  ultimately show ?thesis by blast
qed

lemma match_at_Plus_Atom_None:
  "match_at (Plus (Atom cs)) p (c # t) = None \<Longrightarrow> \<not> cmatch cs c"
  using match_at_Plus_Atom[of cs c p t] by auto

text \<open>The equation of \<open>replace_from\<close>, case by case.\<close>

lemma replace_from_Nil_None:
  "match_at r p [] = None \<Longrightarrow> replace_from r f p [] a = ([], a)"
  by (subst replace_from.simps) simp

lemma replace_from_Cons_None:
  "match_at r p (c # t) = None \<Longrightarrow>
   replace_from r f p (c # t) a =
     (c # fst (replace_from r f (Some c) t a), snd (replace_from r f (Some c) t a))"
  by (subst replace_from.simps) (simp split: prod.splits)

lemma replace_from_Some:
  "match_at r p s = Some (p', s', g) \<Longrightarrow> length s' < length s \<Longrightarrow>
   replace_from r f p s a =
     (fst (f g a) @ fst (replace_from r f p' s' (snd (f g a))),
      snd (replace_from r f p' s' (snd (f g a))))"
  by (subst replace_from.simps) (simp split: prod.splits)

lemma replace_from_Some_empty_Nil:
  "match_at r p [] = Some (p', s', g) \<Longrightarrow> replace_from r f p [] a = f g a"
  by (subst replace_from.simps) (simp split: prod.splits)

lemma replace_from_Some_empty_Cons:
  "match_at r p (c # t) = Some (p', s', g) \<Longrightarrow> \<not> length s' < Suc (length t) \<Longrightarrow>
   replace_from r f p (c # t) a =
     (fst (f g a) @ c # fst (replace_from r f (Some c) t (snd (f g a))),
      snd (replace_from r f (Some c) t (snd (f g a))))"
  by (subst replace_from.simps) (simp split: prod.splits)



section \<open>The identifier table: what ensureId guarantees\<close>





lemma suffixed_not_key: "\<not> is_key base \<Longrightarrow> \<not> is_key (suffixed base k)"
  by (cases base) (auto simp: is_key_def suffixed_def)

lemma ensure_loop_free: "\<not> has m (ensure_loop m base v i)"
  by (induction m base v i rule: ensure_loop.induct) (subst ensure_loop.simps, simp)

lemma ensure_loop_keep: "\<not> has m v \<Longrightarrow> ensure_loop m base v i = v"
  by (subst ensure_loop.simps) simp

lemma ensure_loop_suffix:
  "has m v \<Longrightarrow>
   \<exists>k\<ge>i. ensure_loop m base v i = suffixed base k \<and> \<not> has m (suffixed base k) \<and>
          (\<forall>j. i \<le> j \<and> j < k \<longrightarrow> has m (suffixed base j))"
proof (induction m base v i rule: ensure_loop.induct)
  case (1 m base v i)
  have step: "ensure_loop m base v i = ensure_loop m base (suffixed base i) (Suc i)"
    using "1.prems" by (subst ensure_loop.simps) simp
  show ?case
  proof (cases "has m (suffixed base i)")
    case False
    then have "ensure_loop m base v i = suffixed base i"
      using step by (simp add: ensure_loop_keep)
    with False show ?thesis by (intro exI[of _ i]) auto
  next
    case True
    from "1.IH"[OF "1.prems" True] obtain k where k: "Suc i \<le> k"
      "ensure_loop m base (suffixed base i) (Suc i) = suffixed base k"
      "\<not> has m (suffixed base k)" "\<forall>j. Suc i \<le> j \<and> j < k \<longrightarrow> has m (suffixed base j)"
      by blast
    have "\<forall>j. i \<le> j \<and> j < k \<longrightarrow> has m (suffixed base j)"
    proof (intro allI impI)
      fix j assume "i \<le> j \<and> j < k"
      then show "has m (suffixed base j)" using True k(4) by (cases "j = i") auto
    qed
    with k step show ?thesis by (intro exI[of _ k]) auto
  qed
qed

lemma tab_ok_empty: "tab_ok []"
  by (simp add: tab_ok_def)

lemma tab_ok_key:
  "tab_ok m \<Longrightarrow> map_of m k = Some x \<Longrightarrow> is_key k \<Longrightarrow>
   \<exists>v. x = IdStr v \<and> \<not> is_key v \<and> map_of m v = Some IdTrue"
  unfolding tab_ok_def by blast

lemma tab_ok_id: "tab_ok m \<Longrightarrow> map_of m k = Some x \<Longrightarrow> \<not> is_key k \<Longrightarrow> x = IdTrue"
  unfolding tab_ok_def by blast

lemma tab_ok_str:
  "tab_ok m \<Longrightarrow> map_of m k = Some (IdStr v) \<Longrightarrow> is_key k \<and> map_of m v = Some IdTrue"
proof -
  assume ok: "tab_ok m" and a: "map_of m k = Some (IdStr v)"
  have k: "is_key k" using tab_ok_id[OF ok a] by auto
  from tab_ok_key[OF ok a k] have "map_of m v = Some IdTrue" by auto
  with k show ?thesis by simp
qed

lemma tab_ok_inj:
  "tab_ok m \<Longrightarrow> map_of m k1 = Some (IdStr v) \<Longrightarrow> map_of m k2 = Some (IdStr v) \<Longrightarrow> k1 = k2"
  unfolding tab_ok_def by blast

lemma ensureId_step:
  assumes ok: "tab_ok (idMap st)" and key: "is_key key" and base: "\<not> is_key base"
    and e: "ensureId key base st = (v, st')"
  shows "tab_ok (idMap st') \<and> map_of (idMap st') key = Some (IdStr v) \<and>
         (\<forall>k x. map_of (idMap st) k = Some x \<longrightarrow> map_of (idMap st') k = Some x)"
proof (cases "has (idMap st) key")
  case True
  let ?m = "idMap st"
  from True obtain x where x: "map_of ?m key = Some x" by (auto simp: has_def split: option.splits)
  from tab_ok_key[OF ok x key] obtain w where w: "x = IdStr w" by blast
  from e True x w have "v = w" "st' = st" by (auto simp: ensureId_def get_str_def)
  with ok x w show ?thesis by auto
next
  case False
  let ?m = "idMap st"
    let ?v = "ensure_loop ?m base base 2"
    from e False have v: "v = ?v" and m': "idMap st' = (v, IdTrue) # (key, IdStr v) # ?m"
      by (auto simp: ensureId_def Let_def)
    have free: "\<not> has ?m v" unfolding v by (rule ensure_loop_free)
    have nk: "\<not> is_key v"
    proof (cases "has ?m base")
      case True
      from ensure_loop_suffix[OF True, of 2 base] obtain k where "?v = suffixed base k" by blast
      with base v show ?thesis by (simp add: suffixed_not_key)
    next
      case False
      with base v show ?thesis by (simp add: ensure_loop_keep)
    qed
    have kv: "key \<noteq> v" using key nk by auto
    have nokey: "map_of ?m key = None" using False by (auto simp: has_def split: option.splits)
    have nov: "map_of ?m v = None" using free by (auto simp: has_def split: option.splits)
    have r2: "map_of (idMap st') key = Some (IdStr v)" using m' kv by simp
    have r3: "\<forall>k x. map_of (idMap st) k = Some x \<longrightarrow> map_of (idMap st') k = Some x"
      using m' nokey nov by auto
    have r1: "tab_ok (idMap st')"
      unfolding tab_ok_def
    proof (intro conjI allI impI)
      fix k x assume a: "map_of (idMap st') k = Some x \<and> is_key k"
      have "k \<noteq> v" using a nk by auto
      show "\<exists>w. x = IdStr w \<and> \<not> is_key w \<and> map_of (idMap st') w = Some IdTrue"
      proof (cases "k = key")
        case True
        with a m' kv have "x = IdStr v" by simp
        moreover have "map_of (idMap st') v = Some IdTrue" using m' by simp
        ultimately show ?thesis using nk by blast
      next
        case False
        with a m' \<open>k \<noteq> v\<close> have old: "map_of ?m k = Some x" by simp
        from tab_ok_key[OF ok old] a obtain w where
          w: "x = IdStr w" "\<not> is_key w" "map_of ?m w = Some IdTrue" by blast
        have "w \<noteq> v" using w(3) nov by auto
        moreover have "w \<noteq> key" using w(3) nokey by auto
        ultimately show ?thesis using w m' by simp
      qed
    next
      fix k x assume a: "map_of (idMap st') k = Some x \<and> \<not> is_key k"
      have "k \<noteq> key" using a key by auto
      show "x = IdTrue"
      proof (cases "k = v")
        case True
        with a m' show ?thesis by simp
      next
        case False
        with a m' \<open>k \<noteq> key\<close> have old: "map_of ?m k = Some x" by simp
        from tab_ok_id[OF ok old] a show ?thesis by blast
      qed
    next
      fix k1 k2 w
      assume a: "map_of (idMap st') k1 = Some (IdStr w) \<and> map_of (idMap st') k2 = Some (IdStr w)"
      have moved: "map_of ?m k = Some (IdStr w) \<and> w \<noteq> v"
        if b: "map_of (idMap st') k = Some (IdStr w)" and c: "k \<noteq> key" for k
      proof -
        from b m' have "k \<noteq> v" by auto
        with b c m' have old: "map_of ?m k = Some (IdStr w)" by simp
        from tab_ok_str[OF ok old] have "map_of ?m w = Some IdTrue" by simp
        with nov have "w \<noteq> v" by auto
        with old show ?thesis by simp
      qed
      have atkey: "w = v" if "map_of (idMap st') k = Some (IdStr w)" "k = key" for k
        using that m' kv by auto
      show "k1 = k2"
      proof (cases "k1 = key")
        case True
        with a atkey have wv: "w = v" by blast
        show ?thesis
        proof (rule ccontr)
          assume "k1 \<noteq> k2"
          with True have "k2 \<noteq> key" by simp
          with a moved[of k2] wv show False by blast
        qed
      next
        case False
        with a moved[of k1] have o1: "map_of ?m k1 = Some (IdStr w)" "w \<noteq> v" by blast+
        have "k2 \<noteq> key" using atkey[of k2] a o1(2) by blast
        with a moved[of k2] have "map_of ?m k2 = Some (IdStr w)" by blast
        with o1 ok show ?thesis using tab_ok_inj by blast
      qed
    qed
  from r1 r2 r3 show ?thesis by blast
qed

section \<open>More on the matcher: stars, literals, scanning\<close>

text \<open>A greedy or lazy star over one character class, step by step.\<close>

lemma ms_Star_Atom_Nil: "ms (Star (Atom cs)) (p, [], g) = [(p, [], g)]"
  by (simp add: ms.simps(5))

lemma ms_Star_Atom_stop:
  "\<not> cmatch cs c \<Longrightarrow> ms (Star (Atom cs)) (p, c # t, g) = [(p, c # t, g)]"
  by (simp add: ms.simps(5))

lemma ms_Star_Atom_step:
  "cmatch cs c \<Longrightarrow>
   ms (Star (Atom cs)) (p, c # t, g) = ms (Star (Atom cs)) (Some c, t, g) @ [(p, c # t, g)]"
  by (simp add: ms.simps(5))

lemma lastp_simps [simp]: "lastp p [] = p" "lastp p (c # w) = lastp (Some c) w"
  by (simp_all add: lastp_def)

lemma lastp_append [simp]: "lastp p (u @ w) = lastp (lastp p u) w"
  by (induction u arbitrary: p) simp_all

lemma ms_lit: "ms (lit w) (p, s, g) = (if prefix w s then [(lastp p w, drop (length w) s, g)] else [])"
proof (induction w arbitrary: p s)
  case Nil
  then show ?case by simp
next
  case (Cons c w)
  show ?case by (cases s) (simp_all add: Cons)
qed

lemma ms_Seq_lit:
  "ms (Seq (lit w) r) (p, s, g) = (if prefix w s then ms r (lastp p w, drop (length w) s, g) else [])"
  by (simp add: ms_lit)

text \<open>What a star over a class has consumed.\<close>

lemma ms_Star_Atom_consumed:
  "(p', s', g') \<in> set (ms (Star (Atom cs)) (p, s, g)) \<Longrightarrow>
   \<exists>w. s = w @ s' \<and> list_all (cmatch cs) w \<and> g' = g \<and> p' = lastp p w"
proof (induction s arbitrary: p)
  case Nil
  then show ?case by (simp add: ms_Star_Atom_Nil)
next
  case (Cons c t)
  show ?case
  proof (cases "cmatch cs c")
    case False
    with Cons.prems show ?thesis by (simp add: ms_Star_Atom_stop)
  next
    case True
    with Cons.prems consider "(p', s', g') \<in> set (ms (Star (Atom cs)) (Some c, t, g))"
      | "(p', s', g') = (p, c # t, g)" by (auto simp: ms_Star_Atom_step)
    then show ?thesis
    proof cases
      case 1
      from Cons.IH[OF 1] obtain w where "t = w @ s'" "list_all (cmatch cs) w" "g' = g" "p' = lastp (Some c) w"
        by blast
      with True show ?thesis by (intro exI[of _ "c # w"]) simp
    next
      case 2
      then show ?thesis by (intro exI[of _ "[]"]) simp
    qed
  qed
qed

text \<open>The head of a greedy star: the longest run of the class.\<close>

lemma ms_Star_Atom_hd:
  "\<exists>xs. ms (Star (Atom cs)) (p, s, g) =
        (lastp p (takeWhile (cmatch cs) s), dropWhile (cmatch cs) s, g) # xs"
proof (induction s arbitrary: p)
  case Nil
  then show ?case by (simp add: ms_Star_Atom_Nil)
next
  case (Cons c t)
  show ?case
  proof (cases "cmatch cs c")
    case False
    then show ?thesis by (simp add: ms_Star_Atom_stop)
  next
    case True
    from Cons[of "Some c"] obtain xs where
      "ms (Star (Atom cs)) (Some c, t, g) = (lastp (Some c) (takeWhile (cmatch cs) t), dropWhile (cmatch cs) t, g) # xs"
      by blast
    with True show ?thesis by (simp add: ms_Star_Atom_step)
  qed
qed

lemma nomatch_Nil [simp]: "nomatch r [] s"
  by (simp add: nomatch_def)

lemma nomatch_Cons:
  "nomatch r (c # u) s = ((\<forall>p. match_at r p (c # u @ s) = None) \<and> nomatch r u s)"
proof
  assume a: "nomatch r (c # u) s"
  have "\<forall>p. match_at r p (c # u @ s) = None"
    using a unfolding nomatch_def by (metis append_Cons append_Nil list.distinct(1))
  moreover have "nomatch r u s"
    using a unfolding nomatch_def by (metis append_Cons)
  ultimately show "(\<forall>p. match_at r p (c # u @ s) = None) \<and> nomatch r u s" by simp
next
  assume a: "(\<forall>p. match_at r p (c # u @ s) = None) \<and> nomatch r u s"
  show "nomatch r (c # u) s"
    unfolding nomatch_def
  proof (intro allI impI)
    fix u1 u2 p assume b: "c # u = u1 @ u2 \<and> u2 \<noteq> []"
    show "match_at r p (u2 @ s) = None"
    proof (cases u1)
      case Nil
      with a b show ?thesis by auto
    next
      case (Cons d u1')
      with a b show ?thesis unfolding nomatch_def by auto
    qed
  qed
qed


lemma search_from_skip:
  "nomatch r u s \<Longrightarrow>
   search_from r p (u @ s) =
     (case search_from r (lastp p u) s of None \<Rightarrow> None
      | Some (pre, g, post) \<Rightarrow> Some (u @ pre, g, post))"
proof (induction u arbitrary: p)
  case Nil
  then show ?case by (simp split: option.splits)
next
  case (Cons c u)
  from Cons.prems have m: "match_at r p (c # u @ s) = None" and n: "nomatch r u s"
    by (simp_all add: nomatch_Cons)
  from Cons.IH[OF n, of "Some c"] m show ?case by (simp split: option.splits)
qed

text \<open>A pattern anchored at the start of the text matches at index 0 or nowhere.\<close>

lemma match_at_Bol_Some: "match_at (Seq Bol r) (Some c) s = None"
  by (simp add: match_at_def)

lemma search_from_Bol_Some: "search_from (Seq Bol r) (Some c) s = None"
  by (induction s arbitrary: c) (simp_all add: match_at_Bol_Some)

lemma search_from_Bol:
  "search_from (Seq Bol r) None s =
     (case match_at (Seq Bol r) None s of None \<Rightarrow> None | Some (p', s', g) \<Rightarrow> Some ([], g, s'))"
  by (cases s) (auto simp: search_from_Bol_Some split: option.splits)

text \<open>A search finds nothing where no match starts.\<close>

lemma search_from_None:
  "(\<And>p s1. suffix s1 s \<Longrightarrow> match_at r p s1 = None) \<Longrightarrow> search_from r p s = None"
proof (induction s arbitrary: p)
  case Nil
  then show ?case by simp
next
  case (Cons c t)
  have "search_from r (Some c) t = None"
    by (rule Cons.IH) (rule Cons.prems, simp add: suffix_Cons)
  moreover have "match_at r p (c # t) = None" by (rule Cons.prems) simp
  ultimately show ?case by simp
qed

text \<open>A match is the head of the list of results; capture 0 is what it has consumed.\<close>

lemma match_at_Some_mem:
  assumes "match_at r p s = Some (p', s', g)"
  shows "\<exists>g'. g = (0, take (length s - length s') s) # g' \<and> (p', s', g') \<in> set (ms r (p, s, []))"
proof (cases "ms r (p, s, [])")
  case Nil
  with assms show ?thesis by (simp add: match_at_def)
next
  case (Cons x xs)
  obtain p1 s1 g1 where x: "x = (p1, s1, g1)" by (cases x)
  from assms Cons x have "(p', s', g) = (p1, s1, (0, take (length s - length s1) s) # g1)"
    by (auto simp: match_at_def)
  with Cons x show ?thesis by auto
qed

lemma ms_Seq_mem: "x \<in> set (ms (Seq a b) st) = (\<exists>y\<in>set (ms a st). x \<in> set (ms b y))"
  by simp

text \<open>A literal under the \<open>i\<close> flag, and a token that ends at a word boundary.\<close>

lemma ms_liti:
  "ms (liti w) (p, s, g) =
     (if ci_prefix w s then [(lastp p (take (length w) s), drop (length w) s, g)] else [])"
proof (induction w arbitrary: p s)
  case Nil
  then show ?case by simp
next
  case (Cons c w)
  show ?case by (cases s) (auto simp add: Cons same_letter_def)
qed

lemma ci_prefix_last:
  "ci_prefix w x \<Longrightarrow> w \<noteq> [] \<Longrightarrow>
   lastp p (take (length w) x) = Some (last (take (length w) x)) \<and>
   same_letter (last w) (last (take (length w) x))"
proof (induction w x arbitrary: p rule: ci_prefix.induct)
  case (1 s)
  then show ?case by simp
next
  case (2 c w)
  then show ?case by simp
next
  case (3 c w x s)
  show ?case
  proof (cases "w = []")
    case True
    with 3 show ?thesis by simp
  next
    case False
    with 3 have ih: "lastp (Some x) (take (length w) s) = Some (last (take (length w) s))"
      "same_letter (last w) (last (take (length w) s))" by simp_all
    from False "3.prems" have "take (length w) s \<noteq> []" by (cases w; cases s) auto
    with ih False show ?thesis by simp
  qed
qed

lemma test_token:
  assumes w: "w \<noteq> []" and l: "\<And>y. same_letter (last w) y \<Longrightarrow> is_word y"
  shows "test (seqs [Bol, liti w, WordB]) x = starts_with_token w x"
proof (cases "ci_prefix w x")
  case False
  then show ?thesis
    by (simp add: test_def search_from_Bol match_at_def ms_liti starts_with_token_def)
next
  case True
  from ci_prefix_last[OF True w, of None] l
  have "word_before (lastp None (take (length w) x))" by (auto simp: word_before_def)
  with True show ?thesis
    by (auto simp add: test_def search_from_Bol match_at_def ms_liti starts_with_token_def)
qed

lemma same_letter_m: "same_letter (CHR ''m'') y \<Longrightarrow> is_word y"
  by (auto simp: same_letter_def to_lower_def to_upper_def uppers_def lowers_def
        is_word_def word_chars_def)

lemma token_tests:
  "test re_usecase_token x = starts_with_token ''usecaseDiagram'' x"
  "test re_activity_token x = starts_with_token ''activityDiagram'' x"
proof -
  show "test re_usecase_token x = starts_with_token ''usecaseDiagram'' x"
    unfolding re_usecase_token_def by (rule test_token) (simp_all add: same_letter_m)
  show "test re_activity_token x = starts_with_token ''activityDiagram'' x"
    unfolding re_activity_token_def by (rule test_token) (simp_all add: same_letter_m)
qed

text \<open>The first result of the matcher, pattern by pattern.\<close>

lemma match_at_first: "match_at r p s = first_ms (Group 0 r) (p, s, [])"
  by (simp add: match_at_def first_ms_def)

lemma first_Seq:
  "first_ms a st = Some y \<Longrightarrow> first_ms b y = Some x \<Longrightarrow> first_ms (Seq a b) st = Some x"
  by (auto simp: first_ms_def split: list.splits)

lemma first_Eps: "first_ms Eps st = Some st"
  by (simp add: first_ms_def)

lemma first_lit:
  "prefix w s \<Longrightarrow> first_ms (lit w) (p, s, g) = Some (lastp p w, drop (length w) s, g)"
  by (simp add: first_ms_def ms_lit)

lemma first_lit_append: "first_ms (lit w) (p, w @ s, g) = Some (lastp p w, s, g)"
  by (simp add: first_lit)

lemma first_Atom: "cmatch cs c \<Longrightarrow> first_ms (Atom cs) (p, c # t, g) = Some (Some c, t, g)"
  by (simp add: first_ms_def)

lemma first_Group:
  "first_ms a (p, s, g) = Some (p', s', g') \<Longrightarrow>
   first_ms (Group n a) (p, s, g) = Some (p', s', (n, take (length s - length s') s) # g')"
  by (auto simp: first_ms_def split: list.splits)

lemma first_Star_Atom:
  "first_ms (Star (Atom cs)) (p, s, g) =
     Some (lastp p (takeWhile (cmatch cs) s), dropWhile (cmatch cs) s, g)"
  using ms_Star_Atom_hd[of cs p s g] by (auto simp: first_ms_def)






lemma cmatch_Space: "cmatch Space = is_space"
  by (rule ext) simp

lemma first_Alt:
  "first_ms (Alt a b) st = (case first_ms a st of Some x \<Rightarrow> Some x | None \<Rightarrow> first_ms b st)"
  by (auto simp: first_ms_def split: list.splits)

lemma first_liti:
  "first_ms (liti w) (p, s, g) =
     (if ci_prefix w s then Some (lastp p (take (length w) s), drop (length w) s, g) else None)"
  by (simp add: first_ms_def ms_liti)

lemma first_Opt_liti:
  "first_ms (Opt (liti w)) (p, r, g) =
     Some (if ci_prefix w r then (lastp p (take (length w) r), drop (length w) r, g) else (p, r, g))"
  by (simp add: Opt_def first_Alt first_liti first_Eps)

lemma first_Bol: "first_ms Bol (None, s, g) = Some (None, s, g)"
  by (simp add: first_ms_def)

lemma first_Eol: "first_ms Eol (p, [], g) = Some (p, [], g)"
  by (simp add: first_ms_def)

lemma match_at_search:
  "match_at r p s = Some (p', s', g) \<Longrightarrow> search_from r p s = Some ([], g, s')"
  by (cases s) simp_all

lemma search_from_exists:
  "match_at r (lastp p u) s = Some st \<Longrightarrow> search_from r p (u @ s) \<noteq> None"
proof (induction u arbitrary: p)
  case Nil
  then show ?case by (cases st; cases s) simp_all
next
  case (Cons c u)
  from Cons.IH[of "Some c"] Cons.prems show ?case by (auto split: option.splits)
qed


lemma ms_Plus_Atom_consumed:
  assumes "(p', s', g') \<in> set (ms (Plus (Atom cs)) (p, s, g))"
  shows "\<exists>u. s = u @ s' \<and> list_all (cmatch cs) u \<and> g' = g"
proof -
  from assms obtain y where y: "y \<in> set (ms (Atom cs) (p, s, g))"
    and x: "(p', s', g') \<in> set (ms (Star (Atom cs)) y)"
    unfolding Plus_def ms_Seq_mem by blast
  from y obtain c t where ct: "s = c # t" "cmatch cs c" "y = (Some c, t, g)"
    by (cases s) (auto split: if_splits)
  from ms_Star_Atom_consumed[OF x[unfolded ct(3)]] obtain w where
    "t = w @ s'" "list_all (cmatch cs) w" "g' = g" by blast
  with ct show ?thesis by (intro exI[of _ "c # w"]) simp
qed

lemma ms_Group_mem:
  "x \<in> set (ms (Group n a) (p, s, g)) \<Longrightarrow>
   \<exists>p' s' g'. (p', s', g') \<in> set (ms a (p, s, g)) \<and> x = (p', s', (n, take (length s - length s') s) # g')"
  by auto

text \<open>A greedy run over a class, followed by something that cannot start with the class.\<close>

lemma star_then:
  assumes "\<And>p c t g. cmatch cs c \<Longrightarrow> F (p, c # t, g) = []"
  shows "concat (map F (ms (Star (Atom cs)) (p, s, g))) =
         F (lastp p (takeWhile (cmatch cs) s), dropWhile (cmatch cs) s, g)"
proof (induction s arbitrary: p)
  case Nil
  then show ?case by (simp add: ms_Star_Atom_Nil)
next
  case (Cons c t)
  show ?case
  proof (cases "cmatch cs c")
    case True
    with Cons[of "Some c"] assms[OF True] show ?thesis by (simp add: ms_Star_Atom_step)
  next
    case False
    then show ?thesis by (simp add: ms_Star_Atom_stop)
  qed
qed

lemma plus_then:
  assumes "\<And>p c t g. cmatch cs c \<Longrightarrow> ms k (p, c # t, g) = []"
  shows "ms (Seq (Plus (Atom cs)) k) (p, s, g) =
         (if takeWhile (cmatch cs) s = [] then []
          else ms k (lastp p (takeWhile (cmatch cs) s), dropWhile (cmatch cs) s, g))"
proof (cases s)
  case Nil
  then show ?thesis by (simp add: Plus_def)
next
  case (Cons c t)
  show ?thesis
  proof (cases "cmatch cs c")
    case False
    with Cons show ?thesis by (simp add: Plus_def)
  next
    case True
    have "ms (Seq (Plus (Atom cs)) k) (p, s, g) = concat (map (ms k) (ms (Star (Atom cs)) (Some c, t, g)))"
      using Cons True by (simp add: Plus_def)
    also have "\<dots> = ms k (lastp (Some c) (takeWhile (cmatch cs) t), dropWhile (cmatch cs) t, g)"
      by (rule star_then) (rule assms)
    finally show ?thesis using Cons True by simp
  qed
qed

lemma group_plus_then:
  assumes "\<And>p c t g. cmatch cs c \<Longrightarrow> ms k (p, c # t, g) = []"
  shows "ms (Seq (Group n (Plus (Atom cs))) k) (p, s, g) =
         (if takeWhile (cmatch cs) s = [] then []
          else ms k (lastp p (takeWhile (cmatch cs) s), dropWhile (cmatch cs) s,
                     (n, takeWhile (cmatch cs) s) # g))"
proof (cases s)
  case Nil
  then show ?thesis by (simp add: Plus_def)
next
  case (Cons c t)
  show ?thesis
  proof (cases "cmatch cs c")
    case False
    with Cons show ?thesis by (simp add: Plus_def)
  next
    case True
    let ?F = "\<lambda>(p', s', g'). ms k (p', s', (n, take (length s - length s') s) # g')"
    have f: "?F (p', c' # t', g') = []" if "cmatch cs c'" for p' c' t' g'
      using assms[OF that] by simp
    have "ms (Seq (Group n (Plus (Atom cs))) k) (p, s, g)
        = concat (map ?F (ms (Star (Atom cs)) (Some c, t, g)))"
      using Cons True by (simp add: Plus_def comp_def case_prod_unfold)
    also have "\<dots> = ?F (lastp (Some c) (takeWhile (cmatch cs) t), dropWhile (cmatch cs) t, g)"
      by (rule star_then) (rule f)
    finally have e: "ms (Seq (Group n (Plus (Atom cs))) k) (p, s, g)
        = ms k (lastp (Some c) (takeWhile (cmatch cs) t), dropWhile (cmatch cs) t,
                (n, take (length s - length (dropWhile (cmatch cs) t)) s) # g)" by simp
    let ?tw = "takeWhile (cmatch cs) t"
    let ?dw = "dropWhile (cmatch cs) t"
    have s': "s = (c # ?tw) @ ?dw" using Cons by simp
    have "length s = length (c # ?tw) + length ?dw" by (subst s') (simp only: length_append)
    then have "take (length s - length ?dw) s = take (length (c # ?tw)) s" by simp
    also have "\<dots> = c # ?tw" by (subst s') (simp only: take_all append_take_drop_id take_append, simp)
    finally have "take (length s - length (dropWhile (cmatch cs) t)) s = c # takeWhile (cmatch cs) t" .
    with e Cons True show ?thesis by simp
  qed
qed

section \<open>The header correction\<close>

lemma match_at_newline:
  "match_at re_newline p (c # t) =
     (if c = CHR 0x0A then Some (Some c, t, [(0, [c])])
      else if c = CHR 0x0D \<and> prefix nl t then Some (Some (CHR 0x0A), tl t, [(0, [c, CHR 0x0A])])
      else None)"
  by (cases t) (auto simp: match_at_def re_newline_def Opt_def nl_def)

lemma split_from_nonempty: "split_from r p s \<noteq> []"
proof (induction r p s rule: split_from.induct)
  case (1 r p)
  then show ?case by simp
next
  case (2 r p c t)
  show ?case
  proof (cases "split_from r (Some c) t")
    case Nil
    then show ?thesis by (simp split: option.splits)
  next
    case (Cons l ls)
    then show ?thesis by (simp split: option.splits)
  qed
qed

lemma join_cons_hd: "ls \<noteq> [] \<Longrightarrow> join sep (cons_hd c ls) = c # join sep ls"
proof (cases ls)
  case Nil
  assume "ls \<noteq> []"
  with Nil show ?thesis by simp
next
  case (Cons l ls')
  then show ?thesis by (cases ls') simp_all
qed

lemma join_Nil_first: "ls \<noteq> [] \<Longrightarrow> join sep ([] # ls) = sep @ join sep ls"
  by (cases ls) simp_all

text \<open>Splitting at line breaks and joining with line feeds rewrites CR LF to LF.\<close>

lemma join_split_crlf: "join nl (split_from re_newline p s) = crlf_to_lf s"
proof (induction s arbitrary: p rule: crlf_to_lf.induct)
  case 1
  then show ?case by simp
next
  case (2 c)
  then show ?case by (simp add: match_at_newline nl_def)
next
  case (3 c d s)
  show ?case
  proof (cases "c = CHR 0x0D \<and> d = CHR 0x0A")
    case True
    with 3(1)[OF True, of "Some (CHR 0x0A)"] show ?thesis
      using split_from_nonempty[of re_newline "Some (CHR 0x0A)" s]
      by (simp add: match_at_newline nl_def join_Nil_first)
  next
    case False
    note ih = 3(2)[OF False, of "Some c"]
    show ?thesis
    proof (cases "c = CHR 0x0A")
      case True
      with ih False show ?thesis
        using split_from_nonempty[of re_newline "Some c" "d # s"]
        by (simp add: match_at_newline nl_def join_Nil_first del: split_from.simps(2))
           (simp add: match_at_newline nl_def join_Nil_first)
    next
      case F2: False
      with False have "match_at re_newline p (c # d # s) = None"
        by (auto simp: match_at_newline nl_def)
      then have "split_from re_newline p (c # d # s) = cons_hd c (split_from re_newline (Some c) (d # s))"
        by simp
      with ih False show ?thesis
        using split_from_nonempty[of re_newline "Some c" "d # s"]
        by (simp add: join_cons_hd)
    qed
  qed
qed

lemma trim_snoc_space: "is_space c \<Longrightarrow> trim (x @ [c]) = trim x"
proof (cases "dropWhile is_space x = []")
  case True
  assume c: "is_space c"
  from True have a: "\<forall>y\<in>set x. is_space y" by simp
  then have "dropWhile is_space (x @ [c]) = []" using c by simp
  with True show ?thesis by (simp only: trim_def)
next
  case False
  assume c: "is_space c"
  from False obtain y where y: "y \<in> set x" "\<not> is_space y" by auto
  then have "dropWhile is_space (x @ [c]) = dropWhile is_space x @ [c]"
    by (intro dropWhile_append1) auto
  with c show ?thesis by (simp add: trim_def)
qed

text \<open>The lines of a text: the first one, and the lines of what follows the first line feed.\<close>

lemma split_lines:
  "\<exists>h. split_from re_newline p s =
          h # (if CHR 0x0A \<in> set s
               then split_from re_newline (Some (CHR 0x0A)) (drop 1 (dropWhile (\<lambda>c. c \<noteq> CHR 0x0A) s))
               else []) \<and>
        (takeWhile (\<lambda>c. c \<noteq> CHR 0x0A) s = h \<or> takeWhile (\<lambda>c. c \<noteq> CHR 0x0A) s = h @ [CHR 0x0D])"
proof (induction s arbitrary: p)
  case Nil
  then show ?case by simp
next
  case (Cons c t)
  show ?case
  proof (cases "c = CHR 0x0A")
    case True
    then show ?thesis by (simp add: match_at_newline)
  next
    case False
    show ?thesis
    proof (cases "c = CHR 0x0D \<and> prefix nl t")
      case True
      then obtain t' where "t = CHR 0x0A # t'" by (cases t) (auto simp: nl_def)
      with True show ?thesis by (simp add: match_at_newline nl_def)
    next
      case F2: False
      with False have m: "match_at re_newline p (c # t) = None" by (simp add: match_at_newline)
      from Cons[of "Some c"] obtain h where
        h: "split_from re_newline (Some c) t =
              h # (if CHR 0x0A \<in> set t
                   then split_from re_newline (Some (CHR 0x0A)) (drop 1 (dropWhile (\<lambda>c. c \<noteq> CHR 0x0A) t))
                   else [])"
        and k: "takeWhile (\<lambda>c. c \<noteq> CHR 0x0A) t = h \<or> takeWhile (\<lambda>c. c \<noteq> CHR 0x0A) t = h @ [CHR 0x0D]"
        by blast
      from m h have "split_from re_newline p (c # t) =
          (c # h) # (if CHR 0x0A \<in> set t
                   then split_from re_newline (Some (CHR 0x0A)) (drop 1 (dropWhile (\<lambda>c. c \<noteq> CHR 0x0A) t))
                   else [])" by simp
      with False k show ?thesis by (intro exI[of _ "c # h"]) auto
    qed
  qed
qed

text \<open>
  C8, as stated, fails. The corrector looks at the first line of the text, not at the first
  line that is neither empty nor a comment: after a \<open>%%\<close> comment line the use-case token
  stays. The direction follows the token, not the hint: with the hint \<open>activity\<close> the
  use-case token still becomes \<open>flowchart LR\<close>. And the remainder is not kept byte for
  byte: its lines are joined again with line feeds, so a CR LF line break comes back as LF.
\<close>

theorem header_candidate_counterexample:
  "normalizeMermaidOutput ''usecase'' (''%% use cases'' @ nl @ ''usecaseDiagram'' @ nl @ ''A-->B'') =
     ''%% use cases'' @ nl @ ''usecaseDiagram'' @ nl @ ''A-->B'' \<and>
   normalizeMermaidOutput ''activity'' (''usecaseDiagram'' @ nl @ ''A-->B'') =
     ''flowchart LR'' @ nl @ ''A-->B'' \<and>
   normalizeMermaidOutput ''usecase''
     (''usecaseDiagram'' @ [CHR 0x0D, CHR 0x0A] @ ''A-->B'' @ [CHR 0x0D, CHR 0x0A] @ ''B-->C'') =
     ''flowchart LR'' @ nl @ ''A-->B'' @ nl @ ''B-->C''"
  by code_simp

text \<open>
  C8, amended. For every text, the corrector examines its first line, that is the text
  before the first line feed, trimmed. If that line starts with the activity token (in any
  case, no word character following) the result is \<open>flowchart TD\<close>, a line feed and the
  remaining lines, that is the text after the first line feed with every CR LF rewritten
  to LF (nothing, when the text has one line only); if it starts with the use-case token,
  the same with \<open>flowchart LR\<close>; otherwise the text is returned as it is. The hint plays
  no part.
\<close>

theorem correctHeader_first_line:
  "correctHeader s =
     (let first = trim (takeWhile (\<lambda>c. c \<noteq> CHR 0x0A) s);
          rest = crlf_to_lf (drop 1 (dropWhile (\<lambda>c. c \<noteq> CHR 0x0A) s))
      in if starts_with_token ''activityDiagram'' first then ''flowchart TD'' @ nl @ rest
         else if starts_with_token ''usecaseDiagram'' first then ''flowchart LR'' @ nl @ rest
         else s) \<and>
   normalizeMermaidOutput kind text = normalizeMermaidOutput kind' text"
proof -
  let ?l = "takeWhile (\<lambda>c. c \<noteq> CHR 0x0A) s"
  let ?r = "drop 1 (dropWhile (\<lambda>c. c \<noteq> CHR 0x0A) s)"
  from split_lines[of None s] obtain h where
    h: "split_from re_newline None s =
          h # (if CHR 0x0A \<in> set s then split_from re_newline (Some (CHR 0x0A)) ?r else [])"
    and k: "?l = h \<or> ?l = h @ [CHR 0x0D]" by blast
  have cr: "is_space (CHR 0x0D)" by (simp add: is_space_def spaces_def)
  from k have first: "trim h = trim ?l" using trim_snoc_space[OF cr, of h] by auto
  have rest: "join [CHR 0x0A] (tl (split_from re_newline None s)) = crlf_to_lf ?r"
  proof (cases "CHR 0x0A \<in> set s")
    case True
    with h show ?thesis using join_split_crlf[of "Some (CHR 0x0A)" ?r] by (simp add: nl_def)
  next
    case False
    then have d: "dropWhile (\<lambda>c. c \<noteq> CHR 0x0A) s = []" by auto
    from False h show ?thesis unfolding d by simp
  qed
  show ?thesis
    unfolding correctHeader_def normalizeMermaidOutput_def Let_def rest
    by (simp add: h first token_tests nl_def)
qed


theorem correctHeader_first_line_witness:
  "correctHeader (''usecaseDiagram'' @ [CHR 0x0D, CHR 0x0A] @ ''A-->B'' @ [CHR 0x0D, CHR 0x0A] @ ''B-->C'') =
     ''flowchart LR'' @ nl @ ''A-->B'' @ nl @ ''B-->C'' \<and>
   correctHeader ''  ActivityDiagram '' = ''flowchart TD'' @ nl \<and>
   correctHeader (''flowchart LR'' @ [CHR 0x0D, CHR 0x0A] @ ''A-->B'') =
     ''flowchart LR'' @ [CHR 0x0D, CHR 0x0A] @ ''A-->B''"
proof -
  let ?spec = "\<lambda>s. (let first = trim (takeWhile (\<lambda>c. c \<noteq> CHR 0x0A) s);
          rest = crlf_to_lf (drop 1 (dropWhile (\<lambda>c. c \<noteq> CHR 0x0A) s))
      in if starts_with_token ''activityDiagram'' first then ''flowchart TD'' @ nl @ rest
         else if starts_with_token ''usecaseDiagram'' first then ''flowchart LR'' @ nl @ rest
         else s)"
  let ?a = "''usecaseDiagram'' @ [CHR 0x0D, CHR 0x0A] @ ''A-->B'' @ [CHR 0x0D, CHR 0x0A] @ ''B-->C''"
  let ?b = "''  ActivityDiagram ''"
  let ?c = "''flowchart LR'' @ [CHR 0x0D, CHR 0x0A] @ ''A-->B''"
  have a: "?spec ?a = ''flowchart LR'' @ nl @ ''A-->B'' @ nl @ ''B-->C''" by code_simp
  have b: "?spec ?b = ''flowchart TD'' @ nl" by code_simp
  have c: "?spec ?c = ?c" by code_simp
  have "correctHeader ?a = ?spec ?a" "correctHeader ?b = ?spec ?b" "correctHeader ?c = ?spec ?c"
    using correctHeader_first_line[of ?a "[]" "[]" "[]"] correctHeader_first_line[of ?b "[]" "[]" "[]"]
      correctHeader_first_line[of ?c "[]" "[]" "[]"] by blast+
  with a b c show ?thesis by (simp only:)
qed

section \<open>The fence stripper\<close>

lemma dropWhile_hd: "xs \<noteq> [] \<Longrightarrow> \<not> P (hd xs) \<Longrightarrow> dropWhile P xs = xs"
  by (cases xs) auto

lemma trim_trimmed: "trimmed s \<Longrightarrow> trim s = s"
proof (cases "s = []")
  case True
  then show ?thesis by (simp add: trim_def)
next
  case False
  assume "trimmed s"
  with False have h: "\<not> is_space (hd s)" and l: "\<not> is_space (last s)" by (simp_all add: trimmed_def)
  have 1: "dropWhile is_space s = s" using False h by (rule dropWhile_hd)
  have "\<not> is_space (hd (rev s))" using l False by (simp add: hd_rev)
  then have 2: "dropWhile is_space (rev s) = rev s" using False by (intro dropWhile_hd) simp_all
  show ?thesis by (simp add: trim_def 1 2)
qed

lemma trimmed_trim: "trimmed (trim s)"
proof -
  let ?u = "dropWhile is_space s"
  let ?v = "dropWhile is_space (rev ?u)"
  show ?thesis
  proof (cases "?v = []")
    case True
    then show ?thesis by (simp add: trim_def trimmed_def)
  next
    case False
    then have hv: "\<not> is_space (hd ?v)" by (rule hd_dropWhile)
    have un: "?u \<noteq> []"
    proof
      assume u: "?u = []"
      have "?v = dropWhile is_space (rev [])" by (simp only: u)
      with False show False by simp
    qed
    then have hu: "\<not> is_space (hd ?u)" by (rule hd_dropWhile)
    have "suffix ?v (rev ?u)" by (rule suffix_dropWhile)
    then obtain w where w: "rev ?u = w @ ?v" by (auto simp: suffix_def)
    then have "last (rev ?u) = last ?v" using False by (metis last_appendR)
    then have "hd ?u = last ?v" using un by (simp add: last_rev)
    with hu have "\<not> is_space (last ?v)" by simp
    then have "\<not> is_space (hd (rev ?v))" using False by (simp add: hd_rev)
    moreover have "\<not> is_space (last (rev ?v))" using hv False by (simp add: last_rev)
    ultimately show ?thesis by (simp add: trim_def trimmed_def)
  qed
qed

lemma trim_trim: "trim (trim s) = trim s"
  by (rule trim_trimmed) (rule trimmed_trim)

text \<open>The closing fence pattern matches only a run of spaces and the fence, at the end.\<close>

lemma fence_close_sound:
  assumes "match_at re_fence_close p s = Some st"
  shows "\<exists>w. s = w @ fence \<and> list_all is_space w"
proof -
  obtain p' s' g where st: "st = (p', s', g)" by (cases st)
  from match_at_Some_mem[OF assms[unfolded st]] obtain g' where
    x: "(p', s', g') \<in> set (ms re_fence_close (p, s, []))" by blast
  then obtain y where y: "y \<in> set (ms (Star (Atom Space)) (p, s, []))"
    and b: "(p', s', g') \<in> set (ms (Seq (lit fence) (Seq Eol Eps)) y)"
    unfolding re_fence_close_def seqs.simps sp_def ms_Seq_mem by blast
  obtain p1 s1 g1 where y1: "y = (p1, s1, g1)" by (cases y)
  from ms_Star_Atom_consumed[OF y[unfolded y1]] obtain w where
    w: "s = w @ s1" "list_all (cmatch Space) w" by blast
  from b y1 have "prefix fence s1 \<and> drop (length fence) s1 = []"
    by (auto simp: ms_lit split: if_splits)
  then have "s1 = fence" by (metis append_Nil2 append_take_drop_id prefix_def append_eq_conv_conj)
  with w show ?thesis by (auto simp: list_all_iff)
qed

lemma fence_close_suffix: "match_at re_fence_close p s = Some st \<Longrightarrow> suffix fence s"
  by (drule fence_close_sound) (auto simp: suffix_def)

lemma fence_at_end_suffix: "match_at re_fence_at_end p s = Some st \<Longrightarrow> suffix fence s"
proof -
  assume "match_at re_fence_at_end p s = Some st"
  then have "prefix fence s \<and> drop (length fence) s = []"
    by (auto simp: match_at_def re_fence_at_end_def ms_lit split: list.splits if_splits)
  then have "s = fence" by (metis append_Nil2 append_take_drop_id prefix_def append_eq_conv_conj)
  then show ?thesis by simp
qed

lemma no_close_fence:
  assumes "\<not> suffix fence s"
  shows "replace1 re_fence_close f s = s" and "\<not> test re_fence_at_end s"
proof -
  have "search_from re_fence_close None s = None"
  proof (rule search_from_None)
    fix p s1 assume s1: "suffix s1 s"
    show "match_at re_fence_close p s1 = None"
    proof (rule ccontr)
      assume "match_at re_fence_close p s1 \<noteq> None"
      then obtain st where "match_at re_fence_close p s1 = Some st" by auto
      then have "suffix fence s1" by (rule fence_close_suffix)
      with s1 assms show False using suffix_order.trans by blast
    qed
  qed
  then show "replace1 re_fence_close f s = s" by (simp add: replace1_def)
  have "search_from re_fence_at_end None s = None"
  proof (rule search_from_None)
    fix p s1 assume s1: "suffix s1 s"
    show "match_at re_fence_at_end p s1 = None"
    proof (rule ccontr)
      assume "match_at re_fence_at_end p s1 \<noteq> None"
      then obtain st where "match_at re_fence_at_end p s1 = Some st" by auto
      then have "suffix fence s1" by (rule fence_at_end_suffix)
      with s1 assms show False using suffix_order.trans by blast
    qed
  qed
  then show "\<not> test re_fence_at_end s" by (simp add: test_def)
qed

lemma no_open_fence:
  assumes "\<not> prefix fence s"
  shows "replace1 re_fence_open_tagged f s = s" and "\<not> test re_fence_at_start s"
proof -
  have "match_at re_fence_open_tagged None s = None"
    using assms by (simp add: match_at_def re_fence_open_tagged_def ms_lit)
  then show "replace1 re_fence_open_tagged f s = s"
    by (simp add: replace1_def re_fence_open_tagged_def search_from_Bol)
  have "match_at re_fence_at_start None s = None"
    using assms by (simp add: match_at_def re_fence_at_start_def ms_lit)
  then show "\<not> test re_fence_at_start s"
    by (simp add: test_def re_fence_at_start_def search_from_Bol)
qed

lemma strip_unfenced:
  assumes "\<not> prefix fence (trim s)" "\<not> suffix fence (trim s)"
  shows "stripMermaidFences s = trim s"
proof (cases "s = []")
  case True
  then show ?thesis by (simp add: stripMermaidFences_def trim_def)
next
  case False
  then show ?thesis
    using no_open_fence[OF assms(1)] no_close_fence[OF assms(2)]
    by (simp add: stripMermaidFences_def Let_def trim_trim)
qed

lemma is_space_simps [simp]:
  "is_space (CHR 0x0A)" "is_space (CHR '' '')" "\<not> is_space (CHR 0x60)"
  "\<not> is_space (CHR ''m'')" "\<not> is_space (CHR ''d'')"
  by (simp_all add: is_space_def spaces_def)

lemma strip_open:
  assumes m: "\<exists>g. match_at re_fence_open_tagged None s = Some (p', s', g)"
  shows "replace1 re_fence_open_tagged (\<lambda>_. []) s = s'"
proof -
  from m obtain g where "match_at re_fence_open_tagged None s = Some (p', s', g)" by blast
  then show ?thesis
    by (simp add: replace1_def re_fence_open_tagged_def search_from_Bol)
qed

text \<open>Each replacement of the stripper, said without patterns.\<close>

lemma open_fence_tagged:
  "replace1 re_fence_open_tagged (\<lambda>_. []) t = drop_open_fence True t"
proof (cases "prefix fence t")
  case False
  then show ?thesis by (simp add: no_open_fence(1) drop_open_fence_def)
next
  case True
  let ?r = "drop (length fence) t"
  let ?r' = "if ci_prefix ''mermaid'' ?r then drop (length ''mermaid'') ?r else ?r"
  have 1: "first_ms (lit fence) (None, t, []) = Some (lastp None fence, ?r, [])"
    using True by (rule first_lit)
  obtain q where 2: "first_ms (Opt (liti ''mermaid'')) (lastp None fence, ?r, []) = Some (q, ?r', [])"
    unfolding first_Opt_liti by (cases "ci_prefix ''mermaid'' ?r") simp_all
  have 3: "first_ms (Seq (Star sp) Eps) (q, ?r', [])
      = Some (lastp q (takeWhile is_space ?r'), dropWhile is_space ?r', [])"
    by (rule first_Seq[OF _ first_Eps]) (simp add: sp_def first_Star_Atom cmatch_Space)
  have "first_ms re_fence_open_tagged (None, t, [])
      = Some (lastp q (takeWhile is_space ?r'), dropWhile is_space ?r', [])"
    unfolding re_fence_open_tagged_def seqs.simps
    by (rule first_Seq[OF first_Bol first_Seq[OF 1 first_Seq[OF 2 3]]])
  from first_Group[OF this, of 0]
  have "\<exists>g. match_at re_fence_open_tagged None t
      = Some (lastp q (takeWhile is_space ?r'), dropWhile is_space ?r', g)"
    unfolding match_at_first by blast
  from strip_open[OF this] True show ?thesis by (simp add: drop_open_fence_def Let_def)
qed

lemma open_fence_plain:
  "replace1 re_fence_open (\<lambda>_. []) t = drop_open_fence False t"
proof (cases "prefix fence t")
  case False
  then have "match_at re_fence_open None t = None"
    by (simp add: match_at_def re_fence_open_def ms_lit)
  then show ?thesis using False
    by (simp add: replace1_def re_fence_open_def search_from_Bol drop_open_fence_def)
next
  case True
  let ?r = "drop (length fence) t"
  have 1: "first_ms (lit fence) (None, t, []) = Some (lastp None fence, ?r, [])"
    using True by (rule first_lit)
  have 3: "first_ms (Seq (Star sp) Eps) (lastp None fence, ?r, [])
      = Some (lastp (lastp None fence) (takeWhile is_space ?r), dropWhile is_space ?r, [])"
    by (rule first_Seq[OF _ first_Eps]) (simp add: sp_def first_Star_Atom cmatch_Space)
  have "first_ms re_fence_open (None, t, [])
      = Some (lastp (lastp None fence) (takeWhile is_space ?r), dropWhile is_space ?r, [])"
    unfolding re_fence_open_def seqs.simps
    by (rule first_Seq[OF first_Bol first_Seq[OF 1 3]])
  from first_Group[OF this, of 0] obtain g where
    "match_at re_fence_open None t
      = Some (lastp (lastp None fence) (takeWhile is_space ?r), dropWhile is_space ?r, g)"
    unfolding match_at_first by blast
  then show ?thesis using True
    by (simp add: replace1_def re_fence_open_def search_from_Bol drop_open_fence_def Let_def)
qed

lemma rtrim_split:
  "\<exists>ws. u = rtrim u @ ws \<and> list_all is_space ws \<and> (rtrim u = [] \<or> \<not> is_space (last (rtrim u)))"
proof -
  let ?d = "dropWhile is_space (rev u)"
  let ?t = "takeWhile is_space (rev u)"
  have "rev (?t @ ?d) = u" by (simp only: takeWhile_dropWhile_id rev_rev_ident)
  then have u: "u = rev ?d @ rev ?t" by (simp only: rev_append)
  have sp: "list_all is_space (rev ?t)" by (auto simp: list_all_iff dest: set_takeWhileD)
  have l: "rev ?d = [] \<or> \<not> is_space (last (rev ?d))"
  proof (cases "?d = []")
    case True
    then show ?thesis by simp
  next
    case False
    then have "\<not> is_space (hd ?d)" by (rule hd_dropWhile)
    with False show ?thesis by (simp add: last_rev)
  qed
  from u sp l show ?thesis unfolding rtrim_def by blast
qed

lemma close_fence:
  "replace1 re_fence_close (\<lambda>_. []) t = drop_close_fence t"
proof (cases "suffix fence t")
  case False
  then show ?thesis by (simp add: no_close_fence(1) drop_close_fence_def)
next
  case True
  then obtain u where t: "t = u @ fence" by (auto simp: suffix_def)
  from rtrim_split[of u] obtain ws where
    u: "u = rtrim u @ ws" and ws: "list_all is_space ws"
    and l: "rtrim u = [] \<or> \<not> is_space (last (rtrim u))" by blast
  let ?v = "rtrim u"
  have nm: "nomatch re_fence_close ?v (ws @ fence)"
    unfolding nomatch_def
  proof (intro allI impI)
    fix u1 u2 p assume a: "?v = u1 @ u2 \<and> u2 \<noteq> []"
    show "match_at re_fence_close p (u2 @ ws @ fence) = None"
    proof (rule ccontr)
      assume "match_at re_fence_close p (u2 @ ws @ fence) \<noteq> None"
      then obtain st where "match_at re_fence_close p (u2 @ ws @ fence) = Some st" by auto
      from fence_close_sound[OF this] obtain w where
        w: "u2 @ ws @ fence = w @ fence" "list_all is_space w" by blast
      from w(1) have "w = u2 @ ws" by simp
      with w(2) have "list_all is_space u2" by simp
      moreover have "last u2 = last ?v" using a by (metis last_appendR)
      moreover have "?v \<noteq> []" using a by auto
      ultimately show False using l a by (metis last_in_set list_all_iff)
    qed
  qed
  have tw: "takeWhile is_space (ws @ fence) = ws"
  proof -
    have "takeWhile is_space (ws @ fence) = ws @ takeWhile is_space fence"
      using ws by (intro takeWhile_append2) (simp add: list_all_iff)
    then show ?thesis by (simp add: fence_def)
  qed
  have dw: "dropWhile is_space (ws @ fence) = fence"
  proof -
    have "dropWhile is_space (ws @ fence) = dropWhile is_space fence"
      using ws by (intro dropWhile_append2) (simp add: list_all_iff)
    then show ?thesis by (simp add: fence_def)
  qed
  let ?p = "lastp None ?v"
  have 1: "first_ms (Star sp) (?p, ws @ fence, []) = Some (lastp ?p ws, fence, [])"
    by (simp add: sp_def first_Star_Atom cmatch_Space tw dw)
  have 2: "first_ms (lit fence) (lastp ?p ws, fence, []) = Some (lastp (lastp ?p ws) fence, [], [])"
    using first_lit_append[of fence "lastp ?p ws" "[]" "[]"] by simp
  have 3: "first_ms (Seq Eol Eps) (lastp (lastp ?p ws) fence, [], [])
      = Some (lastp (lastp ?p ws) fence, [], [])"
    by (rule first_Seq[OF first_Eol first_Eps])
  have "first_ms re_fence_close (?p, ws @ fence, []) = Some (lastp (lastp ?p ws) fence, [], [])"
    unfolding re_fence_close_def seqs.simps by (rule first_Seq[OF 1 first_Seq[OF 2 3]])
  from first_Group[OF this, of 0] obtain g where
    "match_at re_fence_close ?p (ws @ fence) = Some (lastp (lastp ?p ws) fence, [], g)"
    unfolding match_at_first by blast
  then have "search_from re_fence_close ?p (ws @ fence) = Some ([], g, [])"
    by (rule match_at_search)
  with search_from_skip[OF nm, of None]
  have "search_from re_fence_close None (?v @ ws @ fence) = Some (?v, g, [])" by simp
  moreover have "t = ?v @ ws @ fence" using t u by simp
  ultimately have "replace1 re_fence_close (\<lambda>_. []) t = ?v" by (simp add: replace1_def)
  moreover have "take (length t - length fence) t = u" using t by simp
  ultimately show ?thesis using True by (simp add: drop_close_fence_def)
qed

lemma fence_tests:
  "test re_fence_at_start t = prefix fence t" "test re_fence_at_end t = suffix fence t"
proof -
  show "test re_fence_at_start t = prefix fence t"
    by (simp add: test_def re_fence_at_start_def search_from_Bol match_at_def ms_lit)
  show "test re_fence_at_end t = suffix fence t"
  proof (cases "suffix fence t")
    case False
    then show ?thesis by (simp add: no_close_fence(2))
  next
    case True
    then obtain u where t: "t = u @ fence" by (auto simp: suffix_def)
    have "\<exists>st. match_at re_fence_at_end (lastp None u) fence = Some st"
      by (simp add: match_at_def re_fence_at_end_def ms_lit)
    then obtain st where "match_at re_fence_at_end (lastp None u) fence = Some st" by blast
    from search_from_exists[OF this] True t show ?thesis by (auto simp: test_def split: option.splits)
  qed
qed

lemma suffix_fence_mono: "suffix x y \<Longrightarrow> suffix fence x \<Longrightarrow> suffix fence y"
  using suffix_order.trans by blast

lemma prefix_fence_mono: "prefix x y \<Longrightarrow> prefix fence x \<Longrightarrow> prefix fence y"
  using prefix_order.trans by blast

lemma drop_open_fence_suffix: "suffix (drop_open_fence tagged t) t"
proof -
  have a: "suffix (dropWhile is_space (drop n t)) t" for n
    by (rule suffix_order.trans[OF suffix_dropWhile suffix_drop])
  have b: "suffix (dropWhile is_space (drop m (drop n t))) t" for m n
    by (rule suffix_order.trans[OF suffix_dropWhile suffix_order.trans[OF suffix_drop suffix_drop]])
  show ?thesis unfolding drop_open_fence_def Let_def using a b by simp
qed

lemma drop_close_fence_prefix: "prefix (drop_close_fence t) t"
proof (cases "suffix fence t")
  case False
  then show ?thesis by (simp add: drop_close_fence_def)
next
  case True
  let ?u = "take (length t - length fence) t"
  from rtrim_split[of ?u] obtain ws where "?u = rtrim ?u @ ws" by blast
  then have "prefix (rtrim ?u) ?u" by (metis prefixI)
  moreover have "prefix ?u t" by (rule take_is_prefix)
  ultimately have "prefix (rtrim ?u) t" by (rule prefix_order.trans)
  with True show ?thesis by (simp add: drop_close_fence_def)
qed

text \<open>
  C4, as stated, fails: a fence marker at one end only is removed all the same. The first
  pair of replacements strips the leading marker and the trailing marker each on its own;
  only the second pair is guarded by the test of both ends.
\<close>

theorem one_sided_fence_counterexample:
  "stripMermaidFences (fence @ ''mermaid'' @ nl @ ''A-->B'') = ''A-->B'' \<and>
   stripMermaidFences (''A-->B'' @ nl @ fence) = ''A-->B'' \<and>
   trim (fence @ ''mermaid'' @ nl @ ''A-->B'') = fence @ ''mermaid'' @ nl @ ''A-->B'' \<and>
   trim (''A-->B'' @ nl @ fence) = ''A-->B'' @ nl @ fence"
  by code_simp

text \<open>
  C4, amended. For every input the stripper does what \<open>strip_fences_spec\<close> says: on the
  trimmed input it removes a leading fence marker (the fence, the tag \<open>mermaid\<close> in any
  case if present, the whitespace that follows) and a trailing fence marker (the fence at
  the very end with the whitespace before it), each on its own; only if what is left both
  starts and ends with a fence it removes a second layer the same way (no tag); the result
  is trimmed. So empty input yields empty output; an input whose trimmed form neither
  starts nor ends with a fence is returned trimmed and otherwise untouched; a leading
  marker without a trailing one is removed, and a trailing marker without a leading one.
\<close>

theorem stripMermaidFences_layers:
  "stripMermaidFences s = strip_fences_spec s \<and>
   stripMermaidFences [] = [] \<and>
   (\<not> prefix fence (trim s) \<and> \<not> suffix fence (trim s) \<longrightarrow> stripMermaidFences s = trim s) \<and>
   (prefix fence (trim s) \<and> \<not> suffix fence (trim s) \<longrightarrow>
      stripMermaidFences s = trim (drop_open_fence True (trim s))) \<and>
   (\<not> prefix fence (trim s) \<and> suffix fence (trim s) \<longrightarrow>
      stripMermaidFences s = trim (drop_close_fence (trim s)))"
proof (intro conjI impI)
  show spec: "stripMermaidFences s = strip_fences_spec s"
    unfolding stripMermaidFences_def strip_fences_spec_def Let_def
    by (simp add: open_fence_tagged open_fence_plain close_fence fence_tests)
  show "stripMermaidFences [] = []" by (simp add: stripMermaidFences_def)
  show "stripMermaidFences s = trim s" if "\<not> prefix fence (trim s) \<and> \<not> suffix fence (trim s)"
    using that by (simp add: strip_unfenced)
  show "stripMermaidFences s = trim (drop_open_fence True (trim s))"
    if a: "prefix fence (trim s) \<and> \<not> suffix fence (trim s)"
  proof -
    let ?x = "drop_open_fence True (trim s)"
    from a have ne: "s \<noteq> []" by (auto simp: trim_def fence_def)
    have ns: "\<not> suffix fence ?x"
      using a suffix_fence_mono[OF drop_open_fence_suffix[of True "trim s"]] by blast
    then have c: "drop_close_fence ?x = ?x" by (simp add: drop_close_fence_def)
    show ?thesis unfolding spec strip_fences_spec_def Let_def c using ne ns by simp
  qed
  show "stripMermaidFences s = trim (drop_close_fence (trim s))"
    if a: "\<not> prefix fence (trim s) \<and> suffix fence (trim s)"
  proof -
    let ?x = "drop_close_fence (trim s)"
    from a have ne: "s \<noteq> []" by (auto simp: trim_def fence_def)
    from a have o: "drop_open_fence True (trim s) = trim s" by (simp add: drop_open_fence_def)
    have np: "\<not> prefix fence ?x"
      using a prefix_fence_mono[OF drop_close_fence_prefix[of "trim s"]] by blast
    show ?thesis unfolding spec strip_fences_spec_def Let_def o using ne np by simp
  qed
qed

theorem stripMermaidFences_layers_witness:
  "(\<not> prefix fence (trim '' A-->B '') \<and> \<not> suffix fence (trim '' A-->B '')) \<and>
   (prefix fence (trim (fence @ ''MERMAID'' @ nl @ nl @ ''A-->B'')) \<and>
    \<not> suffix fence (trim (fence @ ''MERMAID'' @ nl @ nl @ ''A-->B''))) \<and>
   (\<not> prefix fence (trim (''A-->B '' @ nl @ fence)) \<and> suffix fence (trim (''A-->B '' @ nl @ fence))) \<and>
   stripMermaidFences '' A-->B '' = ''A-->B'' \<and>
   stripMermaidFences (fence @ ''MERMAID'' @ nl @ nl @ ''A-->B'') = ''A-->B'' \<and>
   stripMermaidFences (''A-->B '' @ nl @ fence) = ''A-->B'' \<and>
   stripMermaidFences (fence @ '' A-->B'' @ nl @ fence) = ''A-->B'' \<and>
   stripMermaidFences (fence @ ''mermaid'' @ nl @ fence @ nl @ ''A-->B'' @ nl @ fence @ nl @ fence) = ''A-->B'' \<and>
   stripMermaidFences (fence @ nl @ fence @ nl @ ''A-->B'' @ nl @ fence) = fence @ nl @ ''A-->B''"
proof -
  let ?s1 = "'' A-->B ''"
  let ?s2 = "fence @ ''MERMAID'' @ nl @ nl @ ''A-->B''"
  let ?s3 = "''A-->B '' @ nl @ fence"
  let ?s4 = "fence @ '' A-->B'' @ nl @ fence"
  let ?s5 = "fence @ ''mermaid'' @ nl @ fence @ nl @ ''A-->B'' @ nl @ fence @ nl @ fence"
  let ?s6 = "fence @ nl @ fence @ nl @ ''A-->B'' @ nl @ fence"
  have h1: "\<not> prefix fence (trim ?s1) \<and> \<not> suffix fence (trim ?s1)" by code_simp
  have h2: "prefix fence (trim ?s2) \<and> \<not> suffix fence (trim ?s2)" by code_simp
  have h3: "\<not> prefix fence (trim ?s3) \<and> suffix fence (trim ?s3)" by code_simp
  have v1: "trim ?s1 = ''A-->B''" by code_simp
  have v2: "trim (drop_open_fence True (trim ?s2)) = ''A-->B''" by code_simp
  have v3: "trim (drop_close_fence (trim ?s3)) = ''A-->B''" by code_simp
  have v4: "strip_fences_spec ?s4 = ''A-->B''" by code_simp
  have v5: "strip_fences_spec ?s5 = ''A-->B''" by code_simp
  have v6: "strip_fences_spec ?s6 = fence @ nl @ ''A-->B''" by code_simp
  have r1: "stripMermaidFences ?s1 = trim ?s1"
    using stripMermaidFences_layers[of ?s1] h1 by blast
  have r2: "stripMermaidFences ?s2 = trim (drop_open_fence True (trim ?s2))"
    using stripMermaidFences_layers[of ?s2] h2 by blast
  have r3: "stripMermaidFences ?s3 = trim (drop_close_fence (trim ?s3))"
    using stripMermaidFences_layers[of ?s3] h3 by blast
  have r4: "stripMermaidFences ?s4 = strip_fences_spec ?s4"
    using stripMermaidFences_layers[of ?s4] by blast
  have r5: "stripMermaidFences ?s5 = strip_fences_spec ?s5"
    using stripMermaidFences_layers[of ?s5] by blast
  have r6: "stripMermaidFences ?s6 = strip_fences_spec ?s6"
    using stripMermaidFences_layers[of ?s6] by blast
  note e = r1[unfolded v1] r2[unfolded v2] r3[unfolded v3] r4[unfolded v4] r5[unfolded v5]
    r6[unfolded v6]
  from h1 h2 h3 e show ?thesis by blast
qed


section \<open>The branch-label correction\<close>

lemma cmatch_not_bar: "cmatch (NoneOf ''|'') = not_bar"
  by (rule ext) (simp add: not_bar_def)

lemma arrow_tail_fails: "cmatch (NoneOf ''|'') c \<Longrightarrow> ms (Seq (lit (CHR ''|'' # w)) k) (p, c # t, g) = []"
  by (simp add: ms_lit)

lemma ms_branch_arrow:
  "ms re_branch_arrow (p, s, g) =
     (case branch_arrow_at s of None \<Rightarrow> []
      | Some (L, rest) \<Rightarrow> [(Some (CHR ''>''), rest, (1, L) # g)])"
proof -
  let ?k = "Seq (lit ''|-->'') Eps"
  let ?r = "drop (length ''--|'') s"
  let ?L = "takeWhile (cmatch (NoneOf ''|'')) ?r"
  let ?d = "dropWhile (cmatch (NoneOf ''|'')) ?r"
  have "ms re_branch_arrow (p, s, g) =
      (if prefix ''--|'' s then
         (if ?L = [] then []
          else (if prefix ''|-->'' ?d
                then [(lastp (lastp (lastp p ''--|'') ?L) ''|-->'', drop (length ''|-->'') ?d, (1, ?L) # g)]
                else []))
       else [])"
    unfolding re_branch_arrow_def seqs.simps
    by (simp only: ms_Seq_lit group_plus_then[OF arrow_tail_fails] ms.simps(2))
  then show ?thesis
    by (simp add: branch_arrow_at_def Let_def cmatch_not_bar)
qed

lemma match_branch_arrow:
  "match_at re_branch_arrow p s =
     (case branch_arrow_at s of None \<Rightarrow> None
      | Some (L, rest) \<Rightarrow> Some (Some (CHR ''>''), rest, [(0, take (length s - length rest) s), (1, L)]))"
  by (simp add: match_at_def ms_branch_arrow split: option.splits)

lemma replace_fix_arrows:
  "fst (replace_from re_branch_arrow (\<lambda>g u. (''-->|'' @ grp g 1 @ ''|'', u)) p s ()) = fix_arrows s"
proof (induction s arbitrary: p rule: fix_arrows.induct)
  case (1 s)
  show ?case
  proof (cases "branch_arrow_at s")
    case None
    then have m: "match_at re_branch_arrow p s = None" by (simp add: match_branch_arrow)
    show ?thesis
    proof (cases s)
      case Nil
      with None m show ?thesis by (subst fix_arrows.simps) (simp add: replace_from_Nil_None)
    next
      case (Cons c t)
      from "1.IH"(1)[OF None Cons, of "Some c"] None m Cons show ?thesis
        by (subst fix_arrows.simps) (simp add: replace_from_Cons_None)
    qed
  next
    case (Some x)
    obtain L rest where x: "x = (L, rest)" by (cases x)
    from Some x have m: "match_at re_branch_arrow p s
        = Some (Some (CHR ''>''), rest, [(0, take (length s - length rest) s), (1, L)])"
      by (simp add: match_branch_arrow)
    have l: "length rest < length s" using Some x by (intro branch_arrow_at_shorter) simp
    from "1.IH"(2)[OF Some x[symmetric], of "Some (CHR ''>'')"] Some x
    show ?thesis
      by (subst fix_arrows.simps) (simp add: replace_from_Some[OF m l] grp_def)
  qed
qed

lemma cmatch_word: "cmatch (OneOf word_chars) = is_word"
  by (rule ext) (simp add: is_word_def)

lemma not_space_id_start: "is_space c \<Longrightarrow> \<not> is_id_start c"
  by (auto simp: is_space_def spaces_def is_id_start_def uppers_def lowers_def)

lemma id_fails:
  "cmatch Space c \<Longrightarrow>
   ms (Seq (Group n (Seq (Atom (OneOf (uppers @ lowers @ ''_''))) r)) k) (p, c # t, g) = []"
  using not_space_id_start[of c] by (simp add: is_id_start_def)

lemma take_run: "take (length (c # t) - length (dropWhile P t)) (c # t) = c # takeWhile P t"
proof -
  have s': "c # t = (c # takeWhile P t) @ dropWhile P t" by simp
  have "length (c # t) = length (c # takeWhile P t) + length (dropWhile P t)"
    by (subst s') (simp only: length_append)
  then have "take (length (c # t) - length (dropWhile P t)) (c # t)
      = take (length (c # takeWhile P t)) (c # t)" by simp
  also have "\<dots> = c # takeWhile P t" by (subst s') (simp only: take_append, simp)
  finally show ?thesis .
qed

text \<open>The target identifier: a letter or underscore, then the longest run of word characters.\<close>

lemma first_target_id:
  "first_ms (Seq (Group n (Seq (Atom (OneOf (uppers @ lowers @ ''_''))) (Star wordc))) Eps) (p, r, g) =
     (if r \<noteq> [] \<and> is_id_start (hd r)
      then Some (lastp (Some (hd r)) (takeWhile is_word (tl r)), dropWhile is_word (tl r),
                 (n, hd r # takeWhile is_word (tl r)) # g)
      else None)"
proof (cases r)
  case Nil
  then show ?thesis by (simp add: first_ms_def)
next
  case (Cons c t)
  show ?thesis
  proof (cases "is_id_start c")
    case False
    with Cons show ?thesis by (simp add: first_ms_def is_id_start_def)
  next
    case True
    have a: "first_ms (Atom (OneOf (uppers @ lowers @ ''_''))) (p, c # t, g) = Some (Some c, t, g)"
      using True by (intro first_Atom) (simp add: is_id_start_def)
    have b: "first_ms (Star wordc) (Some c, t, g)
        = Some (lastp (Some c) (takeWhile is_word t), dropWhile is_word t, g)"
      by (simp add: wordc_def first_Star_Atom cmatch_word)
    from first_Group[OF first_Seq[OF a b], of n]
    have "first_ms (Group n (Seq (Atom (OneOf (uppers @ lowers @ ''_''))) (Star wordc))) (p, c # t, g)
        = Some (lastp (Some c) (takeWhile is_word t), dropWhile is_word t,
                (n, c # takeWhile is_word t) # g)"
      by (simp only: take_run)
    from first_Seq[OF this first_Eps] Cons True show ?thesis by simp
  qed
qed

lemma first_branch_target:
  "first_ms re_branch_target (p, s, g) =
     (case branch_target_at s of None \<Rightarrow> None
      | Some (L, I, rest) \<Rightarrow> Some (lastp (Some (hd I)) (tl I), rest, (2, I) # (1, L) # g))"
proof -
  let ?kf = "Seq (Group 2 (Seq (Atom (OneOf (uppers @ lowers @ ''_''))) (Star wordc))) Eps"
  let ?r = "drop (length ''--|'') s"
  let ?L = "takeWhile (cmatch (NoneOf ''|'')) ?r"
  let ?d = "dropWhile (cmatch (NoneOf ''|'')) ?r"
  let ?e = "drop (length ''|'') ?d"
  let ?W = "takeWhile (cmatch Space) ?e"
  let ?f = "dropWhile (cmatch Space) ?e"
  have "ms re_branch_target (p, s, g) =
      (if prefix ''--|'' s then
         (if ?L = [] then []
          else (if prefix ''|'' ?d
                then (if ?W = [] then []
                      else ms ?kf (lastp (lastp (lastp (lastp p ''--|'') ?L) ''|'') ?W, ?f, (1, ?L) # g))
                else []))
       else [])"
    unfolding re_branch_target_def seqs.simps sp_def
    by (simp only: ms_Seq_lit group_plus_then[OF arrow_tail_fails] plus_then[OF id_fails])
  then have "first_ms re_branch_target (p, s, g) =
      (if prefix ''--|'' s then
         (if ?L = [] then None
          else (if prefix ''|'' ?d
                then (if ?W = [] then None
                      else first_ms ?kf (lastp (lastp (lastp (lastp p ''--|'') ?L) ''|'') ?W, ?f, (1, ?L) # g))
                else None))
       else None)"
    by (simp add: first_ms_def)
  then show ?thesis
    by (simp add: first_target_id branch_target_at_def Let_def cmatch_not_bar cmatch_Space)
qed

lemma match_branch_target:
  "match_at re_branch_target p s =
     (case branch_target_at s of None \<Rightarrow> None
      | Some (L, I, rest) \<Rightarrow>
          Some (lastp (Some (hd I)) (tl I), rest, [(0, take (length s - length rest) s), (2, I), (1, L)]))"
proof (cases "branch_target_at s")
  case None
  then have "first_ms re_branch_target (p, s, []) = None" by (simp add: first_branch_target)
  then have "ms re_branch_target (p, s, []) = []" by (simp add: first_ms_def split: list.splits)
  with None show ?thesis by (simp add: match_at_def)
next
  case (Some x)
  obtain L I rest where x: "x = (L, I, rest)" by (cases x)
  with Some have "first_ms re_branch_target (p, s, [])
      = Some (lastp (Some (hd I)) (tl I), rest, [(2, I), (1, L)])" by (simp add: first_branch_target)
  from first_Group[OF this, of 0] Some x show ?thesis by (simp add: match_at_first)
qed

lemma replace_fix_targets:
  "fst (replace_from re_branch_target (\<lambda>g u. (''-->|'' @ grp g 1 @ ''| '' @ grp g 2, u)) p s ())
     = fix_targets s"
proof (induction s arbitrary: p rule: fix_targets.induct)
  case (1 s)
  show ?case
  proof (cases "branch_target_at s")
    case None
    then have m: "match_at re_branch_target p s = None" by (simp add: match_branch_target)
    show ?thesis
    proof (cases s)
      case Nil
      with None m show ?thesis by (subst fix_targets.simps) (simp add: replace_from_Nil_None)
    next
      case (Cons c t)
      from "1.IH"(1)[OF None Cons, of "Some c"] None m Cons show ?thesis
        by (subst fix_targets.simps) (simp add: replace_from_Cons_None)
    qed
  next
    case (Some x)
    obtain L I rest where x: "x = (L, I, rest)" by (cases x)
    from Some x have m: "match_at re_branch_target p s
        = Some (lastp (Some (hd I)) (tl I), rest, [(0, take (length s - length rest) s), (2, I), (1, L)])"
      by (simp add: match_branch_target)
    have l: "length rest < length s" using Some x by (intro branch_target_at_shorter) simp
    from "1.IH"(2)[OF Some x[symmetric] refl, of "lastp (Some (hd I)) (tl I)"] Some x
    show ?thesis
      by (subst fix_targets.simps) (simp add: replace_from_Some[OF m l] grp_def)
  qed
qed

text \<open>
  C5, as stated, fails in two places. The whitespace between the label and the target is
  not preserved: the replacement writes one space whatever the run was, three spaces or a
  line break. And not every occurrence is rewritten: occurrences are taken from the left
  without overlap, so in \<open>A--|x--|-->y|-->B\<close> the occurrence \<open>--|-->y|-->\<close>, which starts
  inside the occurrence \<open>--|x--|-->\<close>, stays.
\<close>

theorem branch_whitespace_counterexample:
  "fixBranchLabels ''A --|Yes|   B'' = ''A -->|Yes| B'' \<and>
   fixBranchLabels (''A --|Yes|'' @ nl @ ''B'') = ''A -->|Yes| B'' \<and>
   sanitizeActivityFlowchart ''A --|Yes|   B'' = ''A -->|Yes| B'' \<and>
   sanitizeActivityFlowchartClient ''A --|Yes|   B'' = ''A -->|Yes| B'' \<and>
   fixBranchLabels ''A--|x--|-->y|-->B'' = ''A-->|x--|y|-->B''"
  by code_simp

text \<open>
  C5, amended. For every text, the correction is the scan \<open>fix_arrows\<close> followed by the scan
  \<open>fix_targets\<close>: from the left, every occurrence of \<open>--|L|-->\<close> met (\<open>L\<close> a non-empty run
  without \<open>|\<close>) is rewritten to \<open>-->|L|\<close> and the scan goes on after it; then, on the
  result, every occurrence met of \<open>--|L|\<close>, a run of whitespace and a target identifier is
  rewritten to \<open>-->|L|\<close>, one space and that identifier. The identifier is kept, the
  whitespace run becomes a single space, every other character is copied.
\<close>

theorem fixBranchLabels_every_occurrence:
  "fixBranchLabels t = fix_targets (fix_arrows t)"
  unfolding fixBranchLabels_def replaceAll_def replace_fix_arrows replace_fix_targets ..


theorem fixBranchLabels_every_occurrence_witness:
  "fixBranchLabels ''A--|Yes|-->B'' = ''A-->|Yes|B'' \<and>
   fixBranchLabels (''A--|re-try|-->B; C--|No|-->D;'' @ nl @ ''E --|x y|  F_1; G--|z|'' @ nl @ ''H'') =
     ''A-->|re-try|B; C-->|No|D;'' @ nl @ ''E -->|x y| F_1; G-->|z| H''"
proof -
  let ?a = "''A--|Yes|-->B''"
  let ?b = "''A--|re-try|-->B; C--|No|-->D;'' @ nl @ ''E --|x y|  F_1; G--|z|'' @ nl @ ''H''"
  have a: "fix_targets (fix_arrows ?a) = ''A-->|Yes|B''" by code_simp
  have b: "fix_targets (fix_arrows ?b) =
      ''A-->|re-try|B; C-->|No|D;'' @ nl @ ''E -->|x y| F_1; G-->|z| H''" by code_simp
  note e = fixBranchLabels_every_occurrence[of ?a, unfolded a]
    fixBranchLabels_every_occurrence[of ?b, unfolded b]
  from e show ?thesis by blast
qed

section \<open>Server and client\<close>






text \<open>Replacing a match by itself changes nothing.\<close>

lemma search_from_parts:
  "search_from r p s = Some (pre, g, post) \<Longrightarrow> pre @ grp g 0 @ post = s"
proof (induction s arbitrary: p pre)
  case Nil
  then obtain p' where m: "match_at r p [] = Some (p', post, g)" and pre: "pre = []"
    by (auto split: option.splits)
  from match_at_Some_mem[OF m] obtain g' where g: "g = (0, take (length ([]::string) - length post) []) # g'"
    and mem: "(p', post, g') \<in> set (ms r (p, [], []))" by blast
  from ms_suffix[OF mem] have "post = []" by simp
  with g pre show ?case by (simp add: grp_def)
next
  case (Cons c t)
  show ?case
  proof (cases "match_at r p (c # t)")
    case None
    with Cons.prems obtain pre' where s: "search_from r (Some c) t = Some (pre', g, post)"
      and pre: "pre = c # pre'" by (auto split: option.splits)
    from Cons.IH[OF s] pre show ?thesis by simp
  next
    case (Some st)
    obtain p' s' g1 where st: "st = (p', s', g1)" by (cases st)
    with Some Cons.prems have e: "pre = []" "g1 = g" "s' = post" by simp_all
    from match_at_Some_mem[OF Some[unfolded st]] obtain g' where
      g: "g1 = (0, take (length (c # t) - length s') (c # t)) # g'"
      and mem: "(p', s', g') \<in> set (ms r (p, c # t, []))" by blast
    from ms_suffix[OF mem] obtain w where w: "c # t = w @ s'" by (auto simp: suffix_def)
    then have "take (length (c # t) - length s') (c # t) = w" by simp
    with g e w show ?thesis by (simp add: grp_def)
  qed
qed

lemma replace1_self: "replace1 r (\<lambda>g. grp g 0) s = s"
  by (auto simp: replace1_def split: option.splits dest: search_from_parts)





lemma ms_caps:
  "(p', s', g') \<in> set (ms r (p, s, g)) \<Longrightarrow>
   \<exists>e. g' = e @ g \<and> (\<forall>n x. (n, x) \<in> set e \<longrightarrow> n \<in> groups r \<and> set x \<subseteq> set s)"
proof (induction r "(p, s, g)" arbitrary: p s g p' s' g' rule: ms.induct)
  case (1 cs p s g)
  then show ?case by (auto split: list.splits if_splits)
next
  case (2 p s g)
  then show ?case by simp
next
  case (3 a b p s g)
  from "3.prems" obtain p1 s1 g1 where m1: "(p1, s1, g1) \<in> set (ms a (p, s, g))"
    and m2: "(p', s', g') \<in> set (ms b (p1, s1, g1))" by auto
  from "3.hyps"(1)[OF m1] obtain e1 where e1: "g1 = e1 @ g"
    "\<forall>n x. (n, x) \<in> set e1 \<longrightarrow> n \<in> groups a \<and> set x \<subseteq> set s" by blast
  from "3.hyps"(2)[OF m1 m2] obtain e2 where e2: "g' = e2 @ g1"
    "\<forall>n x. (n, x) \<in> set e2 \<longrightarrow> n \<in> groups b \<and> set x \<subseteq> set s1" by blast
  have "set s1 \<subseteq> set s" using ms_suffix[OF m1] by (rule set_mono_suffix)
  with e1 e2 show ?case by (intro exI[of _ "e2 @ e1"]) (simp, blast)
next
  case (4 a b p s g)
  from "4.prems" consider "(p', s', g') \<in> set (ms a (p, s, g))" | "(p', s', g') \<in> set (ms b (p, s, g))"
    by auto
  then show ?case
  proof cases
    case 1
    from "4.hyps"(1)[OF 1] show ?thesis by auto
  next
    case 2
    from "4.hyps"(2)[OF 2] show ?thesis by auto
  qed
next
  case (5 a p s g)
  from "5.prems" consider "(p', s', g') = (p, s, g)"
    | p1 s1 g1 where "(p1, s1, g1) \<in> set (ms a (p, s, g))" "length s1 < length s"
        "(p', s', g') \<in> set (ms (Star a) (p1, s1, g1))"
    by (subst (asm) ms.simps) (auto split: if_splits)
  then show ?case
  proof cases
    case 1
    then show ?thesis by simp
  next
    case 2
    from "5.hyps"(1)[OF 2(1)] obtain e1 where e1: "g1 = e1 @ g"
      "\<forall>n x. (n, x) \<in> set e1 \<longrightarrow> n \<in> groups a \<and> set x \<subseteq> set s" by blast
    from "5.hyps"(2)[OF 2(1) refl refl 2(2) 2(3)] obtain e2 where e2: "g' = e2 @ g1"
      "\<forall>n x. (n, x) \<in> set e2 \<longrightarrow> n \<in> groups (Star a) \<and> set x \<subseteq> set s1" by blast
    have "set s1 \<subseteq> set s" using ms_suffix[OF 2(1)] by (rule set_mono_suffix)
    with e1 e2 show ?thesis by (intro exI[of _ "e2 @ e1"]) (simp, blast)
  qed
next
  case (6 a p s g)
  from "6.prems" consider "(p', s', g') = (p, s, g)"
    | p1 s1 g1 where "(p1, s1, g1) \<in> set (ms a (p, s, g))" "length s1 < length s"
        "(p', s', g') \<in> set (ms (LazyStar a) (p1, s1, g1))"
    by (subst (asm) ms.simps) (auto split: if_splits)
  then show ?case
  proof cases
    case 1
    then show ?thesis by simp
  next
    case 2
    from "6.hyps"(1)[OF 2(1)] obtain e1 where e1: "g1 = e1 @ g"
      "\<forall>n x. (n, x) \<in> set e1 \<longrightarrow> n \<in> groups a \<and> set x \<subseteq> set s" by blast
    from "6.hyps"(2)[OF 2(1) refl refl 2(2) 2(3)] obtain e2 where e2: "g' = e2 @ g1"
      "\<forall>n x. (n, x) \<in> set e2 \<longrightarrow> n \<in> groups (LazyStar a) \<and> set x \<subseteq> set s1" by blast
    have "set s1 \<subseteq> set s" using ms_suffix[OF 2(1)] by (rule set_mono_suffix)
    with e1 e2 show ?thesis by (intro exI[of _ "e2 @ e1"]) (simp, blast)
  qed
next
  case (7 n a p s g)
  from "7.prems" obtain p1 s1 g1 where m: "(p1, s1, g1) \<in> set (ms a (p, s, g))"
    and x: "(p', s', g') = (p1, s1, (n, take (length s - length s1) s) # g1)" by auto
  from "7.hyps"[OF m] obtain e where e: "g1 = e @ g"
    "\<forall>n x. (n, x) \<in> set e \<longrightarrow> n \<in> groups a \<and> set x \<subseteq> set s" by blast
  have "set (take (length s - length s1) s) \<subseteq> set s" by (rule set_take_subset)
  with e x show ?case by (intro exI[of _ "(n, take (length s - length s1) s) # e"]) auto
next
  case (8 p s g)
  then show ?case by (auto split: if_splits)
next
  case (9 p s g)
  then show ?case by (auto split: option.splits if_splits)
next
  case (10 p s g)
  then show ?case by (auto split: if_splits)
next
  case (11 p s g)
  then show ?case by (auto split: if_splits)
qed

lemma match_at_caps:
  assumes "match_at r p s = Some (p', s', g)"
  shows "set (grp g n) \<subseteq> set s"
proof -
  from match_at_Some_mem[OF assms] obtain g' where
    g: "g = (0, take (length s - length s') s) # g'" and m: "(p', s', g') \<in> set (ms r (p, s, []))"
    by blast
  from ms_caps[OF m] have c: "\<forall>n x. (n, x) \<in> set g' \<longrightarrow> set x \<subseteq> set s" by auto
  have a: "set x \<subseteq> set s" if "(k, x) \<in> set g" for k x
    using that c g set_take_subset[of "length s - length s'" s] by auto
  show ?thesis
  proof (cases "map_of g n")
    case None
    then show ?thesis by (simp add: grp_def)
  next
    case (Some x)
    from map_of_SomeD[OF Some] a have "set x \<subseteq> set s" by blast
    with Some show ?thesis by (simp add: grp_def)
  qed
qed

text \<open>
  What a global replacement writes when the callback builds its text from the captures and
  from characters of \<open>B\<close>, and keeps an invariant \<open>I\<close> of its state.
\<close>

lemma replace_from_inv:
  assumes step: "\<And>g a. I a \<Longrightarrow> (\<forall>n. set (grp g n) \<subseteq> S) \<Longrightarrow>
                   set (fst (f g a)) \<subseteq> S \<union> B \<and> I (snd (f g a))"
  shows "I a \<Longrightarrow> set s \<subseteq> S \<Longrightarrow>
         set (fst (replace_from r f p s a)) \<subseteq> S \<union> B \<and> I (snd (replace_from r f p s a))"
proof (induction "length s" arbitrary: s p a rule: less_induct)
  case less
  show ?case
  proof (cases "match_at r p s")
    case None
    show ?thesis
    proof (cases s)
      case Nil
      with None less.prems show ?thesis by (simp add: replace_from_Nil_None)
    next
      case (Cons c t)
      from less.hyps[of t a "Some c"] less.prems Cons
      have "set (fst (replace_from r f (Some c) t a)) \<subseteq> S \<union> B \<and> I (snd (replace_from r f (Some c) t a))"
        by simp
      then show ?thesis using None Cons less.prems by (auto simp add: replace_from_Cons_None)
    qed
  next
    case (Some st)
    obtain p' s' g where st: "st = (p', s', g)" by (cases st)
    have caps: "\<forall>n. set (grp g n) \<subseteq> S"
      using match_at_caps[OF Some[unfolded st]] less.prems(2) by blast
    from step[OF less.prems(1) caps]
    have o: "set (fst (f g a)) \<subseteq> S \<union> B" and i: "I (snd (f g a))" by simp_all
    have suf: "suffix s' s"
    proof -
      from Some st have "(p', s', g) \<in> set (ms (Group 0 r) (p, s, []))"
        by (auto simp: match_at_def split: list.splits)
      then show ?thesis by (rule ms_suffix)
    qed
    then have s'S: "set s' \<subseteq> S" using less.prems(2) set_mono_suffix by blast
    show ?thesis
    proof (cases "length s' < length s")
      case True
      from less.hyps[OF True i s'S, of p'] o show ?thesis
        using Some st True by (auto simp add: replace_from_Some)
    next
      case False
      show ?thesis
      proof (cases s)
        case Nil
        then show ?thesis using Some st o i by (auto simp add: replace_from_Some_empty_Nil)
      next
        case (Cons c t)
        from less.hyps[of t "snd (f g a)" "Some c"] i less.prems(2) Cons
        have "set (fst (replace_from r f (Some c) t (snd (f g a)))) \<subseteq> S \<union> B \<and>
              I (snd (replace_from r f (Some c) t (snd (f g a))))" by simp
        then show ?thesis
          using Some st Cons False o less.prems(2) by (auto simp add: replace_from_Some_empty_Cons)
      qed
    qed
  qed
qed






lemma emp_lit [simp]: "emp (lit w) = (w = [])"
  by (induction w) simp_all

lemma emp_liti [simp]: "emp (liti w) = (w = [])"
  by (induction w) simp_all

lemma adv_lit [simp]: "adv (lit w) c = (w \<noteq> [] \<and> c = hd w)"
  by (cases w) auto

lemma adv_liti [simp]: "adv (liti w) c = (w \<noteq> [] \<and> same_letter (hd w) c)"
  by (cases w) (auto simp: same_letter_def)

lemma groups_lit [simp]: "groups (lit w) = {}"
  by (induction w) simp_all

lemma groups_liti [simp]: "groups (liti w) = {}"
  by (induction w) simp_all






text \<open>What a replacement without state writes.\<close>

lemma replaceAll_caps_chars:
  assumes "\<And>g. (\<forall>n. set (grp g n) \<subseteq> set s) \<Longrightarrow> set (f g) \<subseteq> set s \<union> B"
  shows "set (replaceAll r f s) \<subseteq> set s \<union> B"
proof -
  have "set (fst (replace_from r (\<lambda>g u. (f g, u)) None s ())) \<subseteq> set s \<union> B \<and>
        True"
    by (rule replace_from_inv[where I = "\<lambda>_. True"]) (use assms in auto)
  then show ?thesis by (simp add: replaceAll_def)
qed


lemma plain_simps [simp]:
  "plain []" "plain (c # s) = (c \<noteq> CHR ''('' \<and> c \<noteq> CHR ''|'' \<and> plain s)"
  by (auto simp: plain_def)

lemma plain_append [simp]: "plain (a @ b) = (plain a \<and> plain b)"
  by (auto simp: plain_def)















lemma groups_anonymous: "1 \<notin> groups (seqs [Group 2 (seqs [lit opn, Star sp, Group 3 (LazyPlus (Atom (NoneOf excl))), Star sp, lit cls]),
           Opt (Group 4 (seqs [lit '':::'', Plus (Atom (OneOf (word_chars @ ''-'')))]))])"
  by (simp add: LazyPlus_def Opt_def Plus_def sp_def)
























end
